theory Spec2Isabelle
  imports Main "HOL-Library.Multiset"
begin

section \<open>The link field: \<open>intrusive_list_node\<close>\<close>

text \<open>
  A link field is a pair of pointers to link fields. Memory is a store from addresses to
  link fields; every method of the source takes the address \<open>this\<close> it is called on and
  returns the store after its writes, one store update per assignment of the source, each
  reading the store the previous assignment left. The fields \<open>next_\<close> and
  \<open>previous_\<close> are written \<open>next\<close> and \<open>previous\<close>.

  An object is identified with the address of its link field: \<open>node_from_object\<close> and
  \<open>object_from_node\<close> add and subtract one fixed offset, so they are inverse bijections
  and comparators and predicates on objects are functions of these addresses.
\<close>

type_synonym addr = nat

record node =
  "next" :: addr
  previous :: addr

type_synonym heap = "addr \<Rightarrow> node"

definition set_next :: "heap \<Rightarrow> addr \<Rightarrow> addr \<Rightarrow> heap" where
  "set_next h p v = h(p := (h p)\<lparr>next := v\<rparr>)"

definition set_previous :: "heap \<Rightarrow> addr \<Rightarrow> addr \<Rightarrow> heap" where
  "set_previous h p v = h(p := (h p)\<lparr>previous := v\<rparr>)"

text \<open>\<open>intrusive_list_node() : next_(this), previous_(this)\<close>\<close>

definition node_construct :: "heap \<Rightarrow> addr \<Rightarrow> heap" where
  "node_construct h this = h(this := \<lparr>next = this, previous = this\<rparr>)"

text \<open>A store in which every link field has just been constructed.\<close>

definition fresh :: heap where
  "fresh = (\<lambda>a. \<lparr>next = a, previous = a\<rparr>)"

text \<open>\<open>bool in_list() const { return next_ != this; }\<close>\<close>

definition in_list :: "heap \<Rightarrow> addr \<Rightarrow> bool" where
  "in_list h this = (next (h this) \<noteq> this)"

text \<open>\<open>clear() { next_ = this; previous_ = this; }\<close>\<close>

definition node_clear :: "heap \<Rightarrow> addr \<Rightarrow> heap" where
  "node_clear h this = set_previous (set_next h this this) this this"

text \<open>\<open>remove() { next_->previous_ = previous_; previous_->next_ = next_; clear(); }\<close>\<close>

definition node_remove :: "heap \<Rightarrow> addr \<Rightarrow> heap" where
  "node_remove h this =
     (let h1 = set_previous h (next (h this)) (previous (h this));
          h2 = set_next h1 (previous (h1 this)) (next (h1 this))
      in node_clear h2 this)"

text \<open>The private \<open>move(other)\<close>.\<close>

definition node_move :: "heap \<Rightarrow> addr \<Rightarrow> addr \<Rightarrow> heap" where
  "node_move h this other =
     (if in_list h other then
        (let h1 = set_next h this (next (h other));
             h2 = set_previous h1 this (previous (h1 other));
             h3 = set_previous h2 (next (h2 other)) this;
             h4 = set_next h3 (previous (h3 other)) this
         in node_clear h4 other)
      else set_previous (set_next h this this) this this)"

text \<open>The move constructor runs \<open>move(other)\<close> on uninitialised fields; the move
  assignment operator first unlinks \<open>this\<close> from its neighbours.\<close>

definition node_move_construct :: "heap \<Rightarrow> addr \<Rightarrow> addr \<Rightarrow> heap" where
  "node_move_construct h this other = node_move h this other"

definition node_move_assign :: "heap \<Rightarrow> addr \<Rightarrow> addr \<Rightarrow> heap" where
  "node_move_assign h this other =
     (let h1 = set_previous h (next (h this)) (previous (h this));
          h2 = set_next h1 (previous (h1 this)) (next (h1 this))
      in node_move h2 this other)"

text \<open>\<open>insert_before(node)\<close> and \<open>insert_after(node)\<close>, four assignments each.\<close>

definition node_insert_before :: "heap \<Rightarrow> addr \<Rightarrow> addr \<Rightarrow> heap" where
  "node_insert_before h this n =
     (let h1 = set_next h (previous (h this)) n;
          h2 = set_previous h1 n (previous (h1 this));
          h3 = set_next h2 n this
      in set_previous h3 this n)"

definition node_insert_after :: "heap \<Rightarrow> addr \<Rightarrow> addr \<Rightarrow> heap" where
  "node_insert_after h this n =
     (let h1 = set_previous h (next (h this)) n;
          h2 = set_next h1 n (next (h1 this));
          h3 = set_previous h2 n this
      in set_next h3 this n)"

section \<open>The container: \<open>intrusive_list\<close>\<close>

text \<open>
  A container is the address of its header link field \<open>data_\<close>; an iterator is the
  address of the link field it points at, and \<open>end()\<close> is the header itself.
\<close>

definition list_construct :: "heap \<Rightarrow> addr \<Rightarrow> heap" where
  "list_construct h this = h(this := \<lparr>next = this, previous = this\<rparr>)"

definition list_begin :: "heap \<Rightarrow> addr \<Rightarrow> addr" where
  "list_begin h this = next (h this)"

definition list_end :: "addr \<Rightarrow> addr" where
  "list_end this = this"

definition list_empty :: "heap \<Rightarrow> addr \<Rightarrow> bool" where
  "list_empty h this = (\<not> in_list h this)"

text \<open>\<open>operator=(this_type&& other) { data_ = std::move(other.data_); }\<close>; the move
  constructor default-constructs \<open>data_\<close> and then move-assigns.\<close>

definition list_move_assign :: "heap \<Rightarrow> addr \<Rightarrow> addr \<Rightarrow> heap" where
  "list_move_assign h this other = node_move_assign h this other"

definition list_move_construct :: "heap \<Rightarrow> addr \<Rightarrow> addr \<Rightarrow> heap" where
  "list_move_construct h this other = list_move_assign (node_construct h this) this other"

text \<open>\<open>push_front\<close> and \<open>push_back\<close> assert that the value is not in a list; a failed
  assertion is \<open>None\<close>.\<close>

definition push_front :: "heap \<Rightarrow> addr \<Rightarrow> addr \<Rightarrow> heap option" where
  "push_front h this v = (if in_list h v then None else Some (node_insert_after h this v))"

definition push_back :: "heap \<Rightarrow> addr \<Rightarrow> addr \<Rightarrow> heap option" where
  "push_back h this v = (if in_list h v then None else Some (node_insert_before h this v))"

definition pop_front :: "heap \<Rightarrow> addr \<Rightarrow> heap" where
  "pop_front h this = node_remove h (next (h this))"

definition pop_back :: "heap \<Rightarrow> addr \<Rightarrow> heap" where
  "pop_back h this = node_remove h (previous (h this))"

text \<open>\<open>insert(pos, value)\<close> is \<open>insert_before(*pos, value)\<close>, which calls
  \<open>insert_before\<close> on the link field of \<open>*pos\<close>; \<open>remove(value)\<close> is static.\<close>

definition list_insert :: "heap \<Rightarrow> addr \<Rightarrow> addr \<Rightarrow> heap" where
  "list_insert h pos v = node_insert_before h pos v"

definition list_remove :: "heap \<Rightarrow> addr \<Rightarrow> heap" where
  "list_remove h v = node_remove h v"

text \<open>\<open>erase(pos)\<close> unlinks the element and returns the iterator after it (the
  source names the iterator's field \<open>node_\<close> here and \<open>value_\<close> elsewhere);
  \<open>insert_after(pos, value)\<close> calls \<open>insert_after\<close> on the link field of \<open>*pos\<close>.\<close>

definition erase :: "heap \<Rightarrow> addr \<Rightarrow> heap \<times> addr" where
  "erase h pos = (let nxt = next (h pos) in (node_remove h pos, nxt))"

definition list_insert_after :: "heap \<Rightarrow> addr \<Rightarrow> addr \<Rightarrow> heap" where
  "list_insert_after h pos v = node_insert_after h pos v"

text \<open>\<open>std::swap\<close> of two pointer fields: both locations are fixed when the call is
  made.\<close>

definition swap_next :: "heap \<Rightarrow> addr \<Rightarrow> addr \<Rightarrow> heap" where
  "swap_next h p q = (let t = next (h p); h1 = set_next h p (next (h q)) in set_next h1 q t)"

definition swap_previous :: "heap \<Rightarrow> addr \<Rightarrow> addr \<Rightarrow> heap" where
  "swap_previous h p q =
     (let t = previous (h p); h1 = set_previous h p (previous (h q)) in set_previous h1 q t)"

definition swap :: "heap \<Rightarrow> addr \<Rightarrow> addr \<Rightarrow> heap" where
  "swap h this other =
     (let h1 = swap_next h this other;
          h2 = swap_previous h1 this other;
          h3 = swap_previous h2 (next (h2 this)) (next (h2 other))
      in swap_next h3 (previous (h3 this)) (previous (h3 other)))"

text \<open>\<open>splice(pos, first, last)\<close>: three reads into locals, then six writes.\<close>

definition splice_range :: "heap \<Rightarrow> addr \<Rightarrow> addr \<Rightarrow> addr \<Rightarrow> heap" where
  "splice_range h pos first last' =
     (if first = last' then h
      else
        (let before_pos_node = previous (h pos);
             before_first_node = previous (h first);
             before_last_node = previous (h last');
             h1 = set_next h before_pos_node first;
             h2 = set_next h1 before_first_node last';
             h3 = set_next h2 before_last_node pos;
             h4 = set_previous h3 pos before_last_node;
             h5 = set_previous h4 first before_pos_node
         in set_previous h5 last' before_first_node))"

definition splice_list :: "heap \<Rightarrow> addr \<Rightarrow> addr \<Rightarrow> heap" where
  "splice_list h pos other = splice_range h pos (list_begin h other) (list_end other)"

definition splice_iter :: "heap \<Rightarrow> addr \<Rightarrow> addr \<Rightarrow> heap" where
  "splice_iter h pos iter = splice_range h pos iter (next (h iter))"

definition splice_value :: "heap \<Rightarrow> addr \<Rightarrow> addr \<Rightarrow> heap" where
  "splice_value h pos other = list_insert (list_remove h other) pos other"

text \<open>The loop of \<open>merge\<close>. It need not terminate on a store that is not a list, so it
  is a partial function; \<open>None\<close> is a loop that never returns.\<close>

partial_function (option) merge_loop ::
  "(addr \<Rightarrow> addr \<Rightarrow> bool) \<Rightarrow> addr \<Rightarrow> addr \<Rightarrow> heap \<Rightarrow> addr \<Rightarrow> addr \<Rightarrow> heap option" where
  "merge_loop compare this other h this_iter other_iter =
     (if this_iter = list_end this then Some (splice_range h (list_end this) other_iter (list_end other))
      else if other_iter = list_end other then Some h
      else if compare this_iter other_iter then
        merge_loop compare this other h (next (h this_iter)) other_iter
      else
        merge_loop compare this other
          (list_insert (list_remove h other_iter) this_iter other_iter)
          this_iter (next (h other_iter)))"

definition merge :: "(addr \<Rightarrow> addr \<Rightarrow> bool) \<Rightarrow> heap \<Rightarrow> addr \<Rightarrow> addr \<Rightarrow> heap option" where
  "merge compare h this other =
     merge_loop compare this other h (list_begin h this) (list_begin h other)"

text \<open>The loop of \<open>unique\<close>; \<open>std::prev(end())\<close> is read again at every test.\<close>

partial_function (option) unique_loop ::
  "(addr \<Rightarrow> addr \<Rightarrow> bool) \<Rightarrow> addr \<Rightarrow> heap \<Rightarrow> addr \<Rightarrow> heap option" where
  "unique_loop pred this h iter =
     (if iter \<noteq> previous (h (list_end this)) then
        (if pred iter (next (h iter)) then
           unique_loop pred this (list_remove h (next (h iter))) iter
         else unique_loop pred this h (next (h iter)))
      else Some h)"

definition unique :: "(addr \<Rightarrow> addr \<Rightarrow> bool) \<Rightarrow> heap \<Rightarrow> addr \<Rightarrow> heap option" where
  "unique pred h this =
     (if list_empty h this then Some h else unique_loop pred this h (list_begin h this))"

text \<open>The two loops of \<open>sort\<close>: the inner one walks \<open>j\<close> back from \<open>i\<close>, the outer
  one moves \<open>i\<close> before \<open>j\<close> and goes on with the cached successor of \<open>i\<close>.\<close>

partial_function (option) sort_inner ::
  "(addr \<Rightarrow> addr \<Rightarrow> bool) \<Rightarrow> addr \<Rightarrow> heap \<Rightarrow> addr \<Rightarrow> addr \<Rightarrow> addr option" where
  "sort_inner compare this h i j =
     (if j \<noteq> list_begin h this \<and> compare i (previous (h j)) then
        sort_inner compare this h i (previous (h j))
      else Some j)"

partial_function (option) sort_loop ::
  "(addr \<Rightarrow> addr \<Rightarrow> bool) \<Rightarrow> addr \<Rightarrow> heap \<Rightarrow> addr \<Rightarrow> heap option" where
  "sort_loop compare this h i =
     (if i \<noteq> list_end this then
        Option.bind (sort_inner compare this h i i)
          (\<lambda>j. sort_loop compare this
                 (if i \<noteq> j then list_insert (list_remove h i) j i else h)
                 (next (h i)))
      else Some h)"

definition list_sort :: "(addr \<Rightarrow> addr \<Rightarrow> bool) \<Rightarrow> heap \<Rightarrow> addr \<Rightarrow> heap option" where
  "list_sort compare h this = sort_loop compare this h (list_begin h this)"

section \<open>What a list in the store is\<close>

text \<open>
  \<open>link h a b\<close>: \<open>b\<close> follows \<open>a\<close> and \<open>a\<close> precedes \<open>b\<close>. The container with
  header \<open>l\<close> holds the objects \<open>xs\<close>, in this order, when the header and the
  objects are pairwise distinct and linked in a circle through the header.
\<close>

definition link :: "heap \<Rightarrow> addr \<Rightarrow> addr \<Rightarrow> bool" where
  "link h a b = (next (h a) = b \<and> previous (h b) = a)"

definition dlist :: "heap \<Rightarrow> addr \<Rightarrow> addr list \<Rightarrow> bool" where
  "dlist h l xs = (distinct (l # xs) \<and> successively (link h) (l # xs @ [l]))"

definition self_linked :: "heap \<Rightarrow> addr \<Rightarrow> bool" where
  "self_linked h n = (next (h n) = n \<and> previous (h n) = n)"

text \<open>Doubly-linked consistency of one link field, and of the whole store.\<close>

definition linked_at :: "heap \<Rightarrow> addr \<Rightarrow> bool" where
  "linked_at h f = (previous (h (next (h f))) = f \<and> next (h (previous (h f))) = f)"

definition linked :: "heap \<Rightarrow> bool" where
  "linked h = (\<forall>f. linked_at h f)"

section \<open>The algorithms on plain lists\<close>

text \<open>
  What the loops compute, read off the order in which they visit and move link fields;
  the theorems below show that the loops on the store produce exactly these lists.
\<close>

fun merge_lists :: "('a \<Rightarrow> 'a \<Rightarrow> bool) \<Rightarrow> 'a list \<Rightarrow> 'a list \<Rightarrow> 'a list" where
  "merge_lists c [] ys = ys"
| "merge_lists c (x # xs) [] = x # xs"
| "merge_lists c (x # xs) (y # ys) =
     (if c x y then x # merge_lists c xs (y # ys) else y # merge_lists c (x # xs) ys)"

text \<open>\<open>unique\<close> compares the element it stands on with its successor, and unlinks the
  successor or steps onto it.\<close>

fun unique_list :: "('a \<Rightarrow> 'a \<Rightarrow> bool) \<Rightarrow> 'a list \<Rightarrow> 'a list" where
  "unique_list p [] = []"
| "unique_list p [x] = [x]"
| "unique_list p (x # y # zs) =
     (if p x y then unique_list p (x # zs) else x # unique_list p (y # zs))"

text \<open>
  The specification's wording of \<open>unique\<close>: of every maximal run of consecutive
  equivalent elements only the first stays. An element starts a run when it is the first
  of the list or is not equivalent to the element just before it; \<open>keep_after p x ys\<close>
  keeps the elements of \<open>ys\<close> that start a run, \<open>x\<close> being the element before
  \<open>ys\<close>.
\<close>

fun keep_after :: "('a \<Rightarrow> 'a \<Rightarrow> bool) \<Rightarrow> 'a \<Rightarrow> 'a list \<Rightarrow> 'a list" where
  "keep_after p x [] = []"
| "keep_after p x (y # ys) = (if p x y then keep_after p y ys else y # keep_after p y ys)"

fun run_heads :: "('a \<Rightarrow> 'a \<Rightarrow> bool) \<Rightarrow> 'a list \<Rightarrow> 'a list" where
  "run_heads p [] = []"
| "run_heads p (x # ys) = x # keep_after p x ys"

text \<open>
  \<open>sort\<close> takes the elements in order; for each it walks back from the end of the part
  already visited while \<open>compare\<close> puts the element before the one passed, and moves
  the element there. \<open>ps\<close> is the part already visited.
\<close>

definition insert_sorted :: "('a \<Rightarrow> 'a \<Rightarrow> bool) \<Rightarrow> 'a \<Rightarrow> 'a list \<Rightarrow> 'a list" where
  "insert_sorted c x ps =
     rev (dropWhile (c x) (rev ps)) @ x # rev (takeWhile (c x) (rev ps))"

fun insertion_sort_from :: "('a \<Rightarrow> 'a \<Rightarrow> bool) \<Rightarrow> 'a list \<Rightarrow> 'a list \<Rightarrow> 'a list" where
  "insertion_sort_from c ps [] = ps"
| "insertion_sort_from c ps (x # xs) = insertion_sort_from c (insert_sorted c x ps) xs"

definition insertion_sort :: "('a \<Rightarrow> 'a \<Rightarrow> bool) \<Rightarrow> 'a list \<Rightarrow> 'a list" where
  "insertion_sort c xs = insertion_sort_from c [] xs"

section \<open>Comparators\<close>

text \<open>
  A strict weak order is irreflexive and transitive, and its incomparability is
  transitive; an equivalence is reflexive, symmetric and transitive.
  Two objects are equivalent when neither precedes the other; a list is ascending when no
  later element precedes an earlier one; \<open>precedes zs x y\<close> says that \<open>y\<close> occurs in
  \<open>zs\<close> after the first occurrence of \<open>x\<close>.
\<close>

definition strict_weak_order :: "('a \<Rightarrow> 'a \<Rightarrow> bool) \<Rightarrow> bool" where
  "strict_weak_order c =
     ((\<forall>x. \<not> c x x) \<and> (\<forall>x y z. c x y \<longrightarrow> c y z \<longrightarrow> c x z) \<and>
      (\<forall>x y z. \<not> c x y \<and> \<not> c y x \<and> \<not> c y z \<and> \<not> c z y \<longrightarrow> \<not> c x z \<and> \<not> c z x))"

definition equivalent :: "('a \<Rightarrow> 'a \<Rightarrow> bool) \<Rightarrow> 'a \<Rightarrow> 'a \<Rightarrow> bool" where
  "equivalent c x y = (\<not> c x y \<and> \<not> c y x)"

definition ascending :: "('a \<Rightarrow> 'a \<Rightarrow> bool) \<Rightarrow> 'a list \<Rightarrow> bool" where
  "ascending c xs = sorted_wrt (\<lambda>x y. \<not> c y x) xs"

definition equivalence :: "('a \<Rightarrow> 'a \<Rightarrow> bool) \<Rightarrow> bool" where
  "equivalence p =
     ((\<forall>x. p x x) \<and> (\<forall>x y. p x y \<longrightarrow> p y x) \<and> (\<forall>x y z. p x y \<longrightarrow> p y z \<longrightarrow> p x z))"

definition precedes :: "'a list \<Rightarrow> 'a \<Rightarrow> 'a \<Rightarrow> bool" where
  "precedes zs x y = (y \<in> set (tl (dropWhile (\<lambda>z. z \<noteq> x) zs)))"

section \<open>Test objects\<close>

text \<open>
  The comparator and the predicate of the tests: \<open>std::less\<close> and \<open>std::equal_to\<close>
  on a value stored in each object. \<open>push_back_all\<close> pushes objects in order and stops
  at a failed assertion.
\<close>

definition less_by :: "(addr \<Rightarrow> int) \<Rightarrow> addr \<Rightarrow> addr \<Rightarrow> bool" where
  "less_by val x y = (val x < val y)"

definition equal_by :: "(addr \<Rightarrow> int) \<Rightarrow> addr \<Rightarrow> addr \<Rightarrow> bool" where
  "equal_by val x y = (val x = val y)"

fun push_back_all :: "heap \<Rightarrow> addr \<Rightarrow> addr list \<Rightarrow> heap option" where
  "push_back_all h this [] = Some h"
| "push_back_all h this (v # vs) =
     (case push_back h this v of None \<Rightarrow> None | Some h' \<Rightarrow> push_back_all h' this vs)"

text \<open>Two containers at addresses 0 and 10, holding the objects 1, 2 and 11, 12.\<close>

definition two_lists :: heap where
  "two_lists =
     the (push_back_all (the (push_back_all (list_construct (list_construct fresh 0) 10) 0 [1, 2]))
       10 [11, 12])"

text \<open>Values for which object 1 and 11 tie, and 2 and 12 tie.\<close>

definition tie_value :: "addr \<Rightarrow> int" where
  "tie_value a = (if a = 1 \<or> a = 11 then 3 else 8)"

text \<open>The container of the \<open>unique\<close> test: objects 1 to 6 with the values
  1, 1, 2, 2, 2, 3.\<close>

definition unique_store :: heap where
  "unique_store = the (push_back_all (list_construct fresh 0) 0 [1, 2, 3, 4, 5, 6])"

definition unique_value :: "addr \<Rightarrow> int" where
  "unique_value a = (if a \<le> 2 then 1 else if a \<le> 5 then 2 else 3)"

text \<open>The container of the \<open>sort\<close> test: objects 1 to 5, pushed in this order, with
  the values 5, 3, 5, 1, 4.\<close>

definition sort_store :: heap where
  "sort_store = the (push_back_all (list_construct fresh 0) 0 [1, 2, 3, 4, 5])"

definition sort_value :: "addr \<Rightarrow> int" where
  "sort_value a =
     (if a = 1 then 5 else if a = 2 then 3 else if a = 3 then 5 else if a = 4 then 1 else 4)"

text \<open>An empty container at address 0 and a container at address 10 holding the
  objects 11 and 12.\<close>

definition one_empty :: heap where
  "one_empty =
     the (push_back_all (list_construct (list_construct fresh 0) 10) 10 [11, 12])"

section \<open>Sequences of well-formed calls\<close>

text \<open>
  To say which calls are well formed, a state pairs the store with the containers that
  have been constructed and what each holds: \<open>L l = Some xs\<close> when \<open>l\<close> is the header
  of a container holding \<open>xs\<close>. A link field is in no list when it is neither a header
  nor an element of a container. \<open>reach h L\<close>: the state is reached from freshly
  constructed link fields by calls whose arguments are what the interface asks for (an
  object pushed or inserted is in no list, iterators point into the container named,
  two containers named in one call are different). Left out are the calls on which the
  code is wrong, \<open>swap\<close> with exactly one empty container and \<open>splice\<close> with \<open>pos\<close>
  inside the range or at its end, and moving into a container that is not empty.
\<close>

definition in_no_list :: "(addr \<rightharpoonup> addr list) \<Rightarrow> addr \<Rightarrow> bool" where
  "in_no_list L n = (\<forall>l xs. L l = Some xs \<longrightarrow> n \<notin> set (l # xs))"

definition well_formed :: "heap \<Rightarrow> (addr \<rightharpoonup> addr list) \<Rightarrow> bool" where
  "well_formed h L =
     ((\<forall>l xs. L l = Some xs \<longrightarrow> dlist h l xs) \<and>
      (\<forall>l xs m ys. L l = Some xs \<longrightarrow> L m = Some ys \<longrightarrow> l \<noteq> m \<longrightarrow>
         set (l # xs) \<inter> set (m # ys) = {}) \<and>
      (\<forall>n. in_no_list L n \<longrightarrow> self_linked h n))"

inductive reach :: "heap \<Rightarrow> (addr \<rightharpoonup> addr list) \<Rightarrow> bool" where
  initial: "reach fresh Map.empty"
| construct_node: "reach h L \<Longrightarrow> in_no_list L n \<Longrightarrow> reach (node_construct h n) L"
| construct_list: "reach h L \<Longrightarrow> in_no_list L l \<Longrightarrow> reach (list_construct h l) (L(l \<mapsto> []))"
| push_back:
    "reach h L \<Longrightarrow> L l = Some xs \<Longrightarrow> in_no_list L v \<Longrightarrow> push_back h l v = Some h'
      \<Longrightarrow> reach h' (L(l \<mapsto> xs @ [v]))"
| push_front:
    "reach h L \<Longrightarrow> L l = Some xs \<Longrightarrow> in_no_list L v \<Longrightarrow> push_front h l v = Some h'
      \<Longrightarrow> reach h' (L(l \<mapsto> v # xs))"
| pop_front: "reach h L \<Longrightarrow> L l = Some (x # xs) \<Longrightarrow> reach (pop_front h l) (L(l \<mapsto> xs))"
| pop_back: "reach h L \<Longrightarrow> L l = Some (xs @ [x]) \<Longrightarrow> reach (pop_back h l) (L(l \<mapsto> xs))"
| pop_empty_front: "reach h L \<Longrightarrow> L l = Some [] \<Longrightarrow> reach (pop_front h l) L"
| pop_empty_back: "reach h L \<Longrightarrow> L l = Some [] \<Longrightarrow> reach (pop_back h l) L"
| insert:
    "reach h L \<Longrightarrow> L l = Some (ps @ qs) \<Longrightarrow> in_no_list L v
      \<Longrightarrow> reach (list_insert h (hd (qs @ [l])) v) (L(l \<mapsto> ps @ v # qs))"
| insert_after:
    "reach h L \<Longrightarrow> L l = Some (ps @ qs) \<Longrightarrow> in_no_list L v
      \<Longrightarrow> reach (list_insert_after h (last (l # ps)) v) (L(l \<mapsto> ps @ v # qs))"
| erase:
    "reach h L \<Longrightarrow> L l = Some (us @ x # vs) \<Longrightarrow> reach (fst (erase h x)) (L(l \<mapsto> us @ vs))"
| remove:
    "reach h L \<Longrightarrow> L l = Some (us @ x # vs) \<Longrightarrow> reach (list_remove h x) (L(l \<mapsto> us @ vs))"
| remove_unlisted: "reach h L \<Longrightarrow> in_no_list L x \<Longrightarrow> reach (node_remove h x) L"
| splice_value:
    "reach h L \<Longrightarrow> L a = Some (ps @ qs) \<Longrightarrow> L b = Some (us @ x # vs) \<Longrightarrow> a \<noteq> b
      \<Longrightarrow> reach (splice_value h (hd (qs @ [a])) x) (L(a \<mapsto> ps @ x # qs, b \<mapsto> us @ vs))"
| splice_value_same:
    "reach h L \<Longrightarrow> L a = Some (us @ x # vs) \<Longrightarrow> us @ vs = ps @ qs
      \<Longrightarrow> reach (splice_value h (hd (qs @ [a])) x) (L(a \<mapsto> ps @ x # qs))"
| splice_list:
    "reach h L \<Longrightarrow> L a = Some (ps @ qs) \<Longrightarrow> L b = Some ys \<Longrightarrow> a \<noteq> b
      \<Longrightarrow> reach (splice_list h (hd (qs @ [a])) b) (L(a \<mapsto> ps @ ys @ qs, b \<mapsto> []))"
| splice_empty: "reach h L \<Longrightarrow> reach (splice_range h pos x x) L"
| splice_range:
    "reach h L \<Longrightarrow> L a = Some (ps @ qs) \<Longrightarrow> L b = Some (us @ rs @ vs) \<Longrightarrow> a \<noteq> b
      \<Longrightarrow> rs \<noteq> []
      \<Longrightarrow> reach (splice_range h (hd (qs @ [a])) (hd rs) (hd (vs @ [b])))
            (L(a \<mapsto> ps @ rs @ qs, b \<mapsto> us @ vs))"
| splice_backward:
    "reach h L \<Longrightarrow> L l = Some (as @ qs @ rs @ bs) \<Longrightarrow> qs \<noteq> [] \<Longrightarrow> rs \<noteq> []
      \<Longrightarrow> reach (splice_range h (hd qs) (hd rs) (hd (bs @ [l]))) (L(l \<mapsto> as @ rs @ qs @ bs))"
| splice_forward:
    "reach h L \<Longrightarrow> L l = Some (as @ rs @ qs @ bs) \<Longrightarrow> qs \<noteq> [] \<Longrightarrow> rs \<noteq> []
      \<Longrightarrow> reach (splice_range h (hd (bs @ [l])) (hd rs) (hd qs)) (L(l \<mapsto> as @ qs @ rs @ bs))"
| merge:
    "reach h L \<Longrightarrow> L a = Some xs \<Longrightarrow> L b = Some ys \<Longrightarrow> a \<noteq> b
      \<Longrightarrow> merge c h a b = Some h' \<Longrightarrow> reach h' (L(a \<mapsto> merge_lists c xs ys, b \<mapsto> []))"
| unique:
    "reach h L \<Longrightarrow> L l = Some xs \<Longrightarrow> unique p h l = Some h'
      \<Longrightarrow> reach h' (L(l \<mapsto> unique_list p xs))"
| sort:
    "reach h L \<Longrightarrow> L l = Some xs \<Longrightarrow> list_sort c h l = Some h'
      \<Longrightarrow> reach h' (L(l \<mapsto> insertion_sort c xs))"
| swap:
    "reach h L \<Longrightarrow> L a = Some xs \<Longrightarrow> L b = Some ys \<Longrightarrow> a \<noteq> b \<Longrightarrow> (xs = [] \<longleftrightarrow> ys = [])
      \<Longrightarrow> reach (swap h a b) (L(a \<mapsto> ys, b \<mapsto> xs))"
| move_assign:
    "reach h L \<Longrightarrow> L a = Some [] \<Longrightarrow> L b = Some ys \<Longrightarrow> a \<noteq> b
      \<Longrightarrow> reach (list_move_assign h a b) (L(a \<mapsto> ys, b \<mapsto> []))"
| move_construct:
    "reach h L \<Longrightarrow> in_no_list L a \<Longrightarrow> L b = Some ys
      \<Longrightarrow> reach (list_move_construct h a b) (L(a \<mapsto> ys, b \<mapsto> []))"

section \<open>Reading the store after a write\<close>

lemma heap_eqI:
  fixes h h' :: heap
  assumes "\<And>a. next (h a) = next (h' a)" and "\<And>a. previous (h a) = previous (h' a)"
  shows "h = h'"
proof
  fix a
  show "h a = h' a" using assms [of a] by simp
qed

lemma node_eqI:
  fixes h h' :: heap
  shows "next (h' c) = next (h c) \<Longrightarrow> previous (h' c) = previous (h c) \<Longrightarrow> h' c = h c"
  by simp

lemma next_set_next [simp]: "next (set_next h p v a) = (if a = p then v else next (h a))"
  by (simp add: set_next_def)

lemma previous_set_next [simp]: "previous (set_next h p v a) = previous (h a)"
  by (simp add: set_next_def)

lemma next_set_previous [simp]: "next (set_previous h p v a) = next (h a)"
  by (simp add: set_previous_def)

lemma previous_set_previous [simp]:
  "previous (set_previous h p v a) = (if a = p then v else previous (h a))"
  by (simp add: set_previous_def)

lemma set_next_other: "a \<noteq> p \<Longrightarrow> set_next h p v a = h a"
  by (simp add: set_next_def)

lemma set_previous_other: "a \<noteq> p \<Longrightarrow> set_previous h p v a = h a"
  by (simp add: set_previous_def)

section \<open>Popping from an empty container\<close>

lemma dlist_Nil_iff: "dlist h l [] = self_linked h l"
  by (simp add: dlist_def link_def self_linked_def)

lemma node_remove_self_linked_id: "self_linked h n \<Longrightarrow> node_remove h n = h"
  by (rule heap_eqI) (simp_all add: self_linked_def node_remove_def node_clear_def Let_def)

lemma pop_empty_id:
  assumes "dlist h l []"
  shows "pop_front h l = h" and "pop_back h l = h"
proof -
  from assms have s: "self_linked h l" by (simp add: dlist_Nil_iff)
  then have "next (h l) = l" "previous (h l) = l" by (simp_all add: self_linked_def)
  then show "pop_front h l = h" "pop_back h l = h"
    using s by (simp_all add: pop_front_def pop_back_def node_remove_self_linked_id)
qed

section \<open>Segments of linked fields\<close>

lemma link_frame:
  "next (h' a) = next (h a) \<Longrightarrow> previous (h' b) = previous (h b) \<Longrightarrow> link h' a b = link h a b"
  by (simp add: link_def)

lemma successively_link_frame:
  assumes "\<forall>c \<in> set (butlast cs). next (h' c) = next (h c)"
    and "\<forall>c \<in> set (tl cs). previous (h' c) = previous (h c)"
  shows "successively (link h') cs = successively (link h) cs"
  using assms
proof (induction cs rule: induct_list012)
  case (3 x y zs)
  then show ?case by (simp add: link_def)
qed simp_all

lemma successively_join:
  "successively P xs \<Longrightarrow> successively P ys \<Longrightarrow> P (last xs) (hd ys) \<Longrightarrow> successively P (xs @ ys)"
  by (simp add: successively_append_iff)

lemma successively_split:
  assumes "successively P (xs @ ys)"
  shows "successively P xs" and "successively P ys"
    and "xs \<noteq> [] \<Longrightarrow> ys \<noteq> [] \<Longrightarrow> P (last xs) (hd ys)"
  using assms by (auto simp only: successively_append_iff)

lemma successively_tl: "successively P (x # xs) \<Longrightarrow> successively P xs"
  by (cases xs) simp_all

lemma last_notin_butlast: "distinct cs \<Longrightarrow> cs \<noteq> [] \<Longrightarrow> last cs \<notin> set (butlast cs)"
  by (metis append_butlast_last_id distinct_append disjoint_iff list.set_intros(1) )

lemma hd_notin_tl: "distinct cs \<Longrightarrow> cs \<noteq> [] \<Longrightarrow> hd cs \<notin> set (tl cs)"
  by (cases cs) auto

lemma dlist_next:
  assumes "dlist h l (us @ x # vs)"
  shows "next (h x) = hd (vs @ [l])"
proof -
  from assms have "successively (link h) ((l # us) @ x # vs @ [l])" by (simp add: dlist_def)
  then have "successively (link h) (x # vs @ [l])" 
    unfolding successively_append_iff by simp
  then show ?thesis by (cases vs) (simp_all add: link_def)
qed

lemma dlist_previous:
  assumes "dlist h l (us @ x # vs)"
  shows "previous (h x) = last (l # us)"
proof -
  from assms have "successively (link h) ((l # us) @ x # vs @ [l])" by (simp add: dlist_def)
  then have "link h (last (l # us)) x"
    unfolding successively_append_iff by simp
  then show ?thesis by (simp add: link_def)
qed

lemma dlist_header_next: "dlist h l xs \<Longrightarrow> next (h l) = hd (xs @ [l])"
  by (cases xs) (simp_all add: dlist_def link_def)

lemma dlist_header_previous:
  assumes "dlist h l xs" shows "previous (h l) = last (l # xs)"
proof -
  from assms have "successively (link h) ((l # xs) @ [l])" by (simp add: dlist_def)
  then have "link h (last (l # xs)) l"
    unfolding successively_append_iff by simp
  then show ?thesis by (simp add: link_def)
qed

lemma dlist_frame:
  assumes "dlist h l xs" and "\<forall>a \<in> set (l # xs). h' a = h a"
  shows "dlist h' l xs"
proof -
  have "successively (link h') (l # xs @ [l]) = successively (link h) (l # xs @ [l])"
    using assms(2) by (intro successively_link_frame) (auto simp: butlast_append)
  with assms(1) show ?thesis by (simp add: dlist_def)
qed

lemma chain_unique:
  assumes "successively (link h) (a # xs @ [l])" and "successively (link h) (a # ys @ [l])"
    and "l \<notin> set xs" and "l \<notin> set ys"
  shows "xs = ys"
  using assms
proof (induction xs arbitrary: a ys)
  case Nil
  then show ?case by (cases ys) (auto simp: link_def)
next
  case (Cons x xs)
  show ?case
  proof (cases ys)
    case Nil
    with Cons.prems show ?thesis by (auto simp: link_def)
  next
    case (Cons y ys')
    with Cons.prems have yx: "y = x" by (auto simp: link_def)
    have "xs = ys'"
      using Cons.prems Cons yx by (intro Cons.IH [of x ys']) auto
    with yx show ?thesis using Cons by simp
  qed
qed

lemma dlist_unique: "dlist h l xs \<Longrightarrow> dlist h l ys \<Longrightarrow> xs = ys"
  unfolding dlist_def using chain_unique [of h l xs l ys] by auto

section \<open>Removing a link field from a container\<close>

lemma node_remove_next:
  assumes "x \<noteq> next (h x)" "x \<noteq> previous (h x)"
  shows "next (node_remove h x a) = (if a = x then x else if a = previous (h x) then next (h x) else next (h a))"
  using assms by (simp add: node_remove_def node_clear_def Let_def)

lemma node_remove_previous:
  assumes "x \<noteq> next (h x)" "x \<noteq> previous (h x)"
  shows "previous (node_remove h x a) = (if a = x then x else if a = next (h x) then previous (h x) else previous (h a))"
  using assms by (simp add: node_remove_def node_clear_def Let_def)

lemma node_remove_self_linked: "self_linked (node_remove h x) x"
  by (simp add: node_remove_def node_clear_def Let_def self_linked_def)

lemma node_remove_frame:
  "a \<noteq> x \<Longrightarrow> a \<noteq> next (h x) \<Longrightarrow> a \<noteq> previous (h x) \<Longrightarrow> node_remove h x a = h a"
  by (simp add: node_remove_def node_clear_def Let_def set_next_def set_previous_def)

lemma dlist_remove:
  assumes d: "dlist h l (us @ x # vs)"
  shows "dlist (node_remove h x) l (us @ vs)"
proof -
  let ?p = "last (l # us)" and ?n = "hd (vs @ [l])" and ?h = "node_remove h x"
  have nx: "next (h x) = ?n" and px: "previous (h x) = ?p"
    using d by (rule dlist_next, rule dlist_previous)
  have dist: "distinct (l # us @ x # vs)" using d by (simp add: dlist_def)
  have p_in: "?p \<in> set (l # us)" by (metis last_in_set list.distinct(1))
  have n_in: "?n \<in> set (vs @ [l])" by (metis hd_in_set snoc_eq_iff_butlast)
  have xp: "x \<noteq> ?p" using dist p_in by auto
  have xn: "x \<noteq> ?n" using dist n_in by auto
  note nf = node_remove_next [of x h, unfolded nx px, OF xn xp]
  note pf = node_remove_previous [of x h, unfolded nx px, OF xn xp]
  from d have s: "successively (link h) ((l # us) @ x # vs @ [l])" by (simp add: dlist_def)
  then have s1: "successively (link h) (l # us)" and s2': "successively (link h) (x # (vs @ [l]))"
    by (auto simp only: successively_append_iff)
  from s2' have s2: "successively (link h) (vs @ [l])"
    by (cases "vs @ [l]") simp_all
  have p_nb: "?p \<notin> set (butlast (l # us))"
    using dist by (intro last_notin_butlast) auto
  have n_nt: "?n \<notin> set (tl (vs @ [l]))"
    using dist by (intro hd_notin_tl) auto
  have a: "successively (link ?h) (l # us) = successively (link h) (l # us)"
  proof (rule successively_link_frame)
    show "\<forall>c\<in>set (butlast (l # us)). next (?h c) = next (h c)"
      using p_nb dist by (auto simp: nf dest: in_set_butlastD)
    show "\<forall>c\<in>set (tl (l # us)). previous (?h c) = previous (h c)"
      using dist n_in by (auto simp: pf)
  qed
  have b: "successively (link ?h) (vs @ [l]) = successively (link h) (vs @ [l])"
  proof (rule successively_link_frame)
    show "\<forall>c\<in>set (butlast (vs @ [l])). next (?h c) = next (h c)"
      using dist p_in by (auto simp: nf)
    show "\<forall>c\<in>set (tl (vs @ [l])). previous (?h c) = previous (h c)"
    proof
      fix c assume c: "c \<in> set (tl (vs @ [l]))"
      then have "c \<in> set (vs @ [l])" by (cases vs) auto
      with dist have "c \<noteq> x" by auto
      moreover from c n_nt have "c \<noteq> ?n" by auto
      ultimately show "previous (?h c) = previous (h c)" by (simp add: pf)
    qed
  qed
  have c: "link ?h ?p ?n" using xp xn by (simp add: link_def nf pf)
  have a': "successively (link ?h) (l # us)" using a s1 by blast
  have b': "successively (link ?h) (vs @ [l])" using b s2 by blast
  have "successively (link ?h) ((l # us) @ (vs @ [l]))"
    by (rule successively_join [OF a' b' c])
  then show ?thesis using dist by (simp add: dlist_def)
qed

lemma dlist_remove_frame:
  assumes "dlist h l (us @ x # vs)" and "a \<notin> set (l # us @ x # vs)"
  shows "node_remove h x a = h a"
proof -
  let ?p = "last (l # us)" and ?n = "hd (vs @ [l])"
  have nx: "next (h x) = ?n" and px: "previous (h x) = ?p"
    using assms(1) by (rule dlist_next, rule dlist_previous)
  have p_in: "?p \<in> set (l # us)" by (metis last_in_set list.distinct(1))
  have n_in: "?n \<in> set (vs @ [l])" by (metis hd_in_set snoc_eq_iff_butlast)
  show ?thesis using assms(2) p_in n_in by (intro node_remove_frame) (auto simp: nx px)
qed

section \<open>Inserting a link field into a container\<close>

lemma seg_frame:
  assumes "successively (link h) cs" and "distinct cs"
    and "\<And>c. c \<in> set cs \<Longrightarrow> c \<noteq> last cs \<Longrightarrow> next (h' c) = next (h c)"
    and "\<And>c. c \<in> set cs \<Longrightarrow> c \<noteq> hd cs \<Longrightarrow> previous (h' c) = previous (h c)"
  shows "successively (link h') cs"
proof (cases "cs = []")
  case False
  have "successively (link h') cs = successively (link h) cs"
  proof (rule successively_link_frame)
    show "\<forall>c\<in>set (butlast cs). next (h' c) = next (h c)"
      using assms(2,3) False last_notin_butlast [of cs] by (auto dest: in_set_butlastD)
    show "\<forall>c\<in>set (tl cs). previous (h' c) = previous (h c)"
      using assms(2,4) False hd_notin_tl [of cs] by (auto dest: list.set_sel(2))
  qed
  with assms(1) show ?thesis by simp
qed simp

lemma successively_join3:
  assumes "successively P xs" and "successively P zs" and "P (last xs) y" and "P y (hd zs)"
    and "xs \<noteq> []" and "zs \<noteq> []"
  shows "successively P (xs @ y # zs)"
  using assms by (simp add: successively_append_iff successively_Cons)

lemma dlist_previous_pos:
  assumes "dlist h l (us @ vs)"
  shows "previous (h (hd (vs @ [l]))) = last (l # us)"
proof (cases vs)
  case Nil
  with assms show ?thesis using dlist_header_previous [of h l us] by simp
next
  case (Cons y ys)
  with assms show ?thesis using dlist_previous [of h l us y ys] by simp
qed

lemma dlist_next_pos:
  assumes "dlist h l (us @ vs)"
  shows "next (h (last (l # us))) = hd (vs @ [l])"
proof (cases us rule: rev_cases)
  case Nil
  with assms show ?thesis using dlist_header_next [of h l vs] by simp
next
  case (snoc ys y)
  with assms show ?thesis using dlist_next [of h l ys y vs] by simp
qed

lemma node_insert_before_next:
  assumes "n \<noteq> previous (h pos)"
  shows "next (node_insert_before h pos n a) =
    (if a = n then pos else if a = previous (h pos) then n else next (h a))"
  using assms by (simp add: node_insert_before_def Let_def)

lemma node_insert_before_previous:
  assumes "n \<noteq> pos"
  shows "previous (node_insert_before h pos n a) =
    (if a = pos then n else if a = n then previous (h pos) else previous (h a))"
  using assms by (simp add: node_insert_before_def Let_def)

lemma node_insert_before_frame:
  "a \<noteq> n \<Longrightarrow> a \<noteq> pos \<Longrightarrow> a \<noteq> previous (h pos) \<Longrightarrow> node_insert_before h pos n a = h a"
  by (simp add: node_insert_before_def Let_def set_next_def set_previous_def)

lemma last_Cons_in: "last (l # us) \<in> set (l # us)"
  by (metis last_in_set list.distinct(1))

lemma hd_snoc_in: "hd (vs @ [l]) \<in> set (vs @ [l])"
  by (metis hd_in_set snoc_eq_iff_butlast)

lemma dlist_insert_before:
  assumes d: "dlist h l (us @ vs)" and n: "n \<notin> set (l # us @ vs)"
  shows "dlist (node_insert_before h (hd (vs @ [l])) n) l (us @ n # vs)"
proof -
  let ?p = "last (l # us)" and ?pos = "hd (vs @ [l])"
  let ?h = "node_insert_before h ?pos n"
  have pp: "previous (h ?pos) = ?p" using d by (rule dlist_previous_pos)
  have dist: "distinct (l # us @ vs)" using d by (simp add: dlist_def)
  have p_in: "?p \<in> set (l # us)" by (rule last_Cons_in)
  have pos_in: "?pos \<in> set (vs @ [l])" by (rule hd_snoc_in)
  have np: "n \<noteq> ?p" using n p_in by auto
  have npos: "n \<noteq> ?pos" using n pos_in by auto
  note nf = node_insert_before_next [of n h ?pos, unfolded pp, OF np]
  note pf = node_insert_before_previous [of n ?pos h, unfolded pp, OF npos]
  from d have s: "successively (link h) ((l # us) @ (vs @ [l]))" by (simp add: dlist_def)
  have a: "successively (link ?h) (l # us)"
  proof (rule seg_frame [OF successively_split(1) [OF s]])
    show "distinct (l # us)" using dist by simp
    show "next (?h c) = next (h c)" if "c \<in> set (l # us)" "c \<noteq> last (l # us)" for c
      using that n by (auto simp: nf)
    show "previous (?h c) = previous (h c)" if "c \<in> set (l # us)" "c \<noteq> hd (l # us)" for c
      using that n dist pos_in by (auto simp: pf)
  qed
  have b: "successively (link ?h) (vs @ [l])"
  proof (rule seg_frame [OF successively_split(2) [OF s]])
    show "distinct (vs @ [l])" using dist by simp
    show "next (?h c) = next (h c)" if "c \<in> set (vs @ [l])" "c \<noteq> last (vs @ [l])" for c
      using that n dist p_in by (auto simp: nf)
    show "previous (?h c) = previous (h c)" if "c \<in> set (vs @ [l])" "c \<noteq> hd (vs @ [l])" for c
      using that n by (auto simp: pf)
  qed
  have c1: "link ?h ?p n" using np npos by (simp add: link_def nf pf)
  have c2: "link ?h n ?pos" using np npos by (simp add: link_def nf pf)
  have "successively (link ?h) ((l # us) @ n # (vs @ [l]))"
    by (rule successively_join3 [OF a b c1 c2]) simp_all
  then show ?thesis using dist n by (simp add: dlist_def)
qed

lemma dlist_insert_before_frame:
  assumes "dlist h l (us @ vs)" and "a \<notin> set (l # us @ vs)" and "a \<noteq> n"
  shows "node_insert_before h (hd (vs @ [l])) n a = h a"
proof -
  have "previous (h (hd (vs @ [l]))) = last (l # us)" using assms(1) by (rule dlist_previous_pos)
  then show ?thesis
    using assms(2,3) last_Cons_in [of l us] hd_snoc_in [of vs l]
    by (intro node_insert_before_frame) auto
qed

section \<open>Splicing a range from one container into another\<close>

lemma splice_range_next:
  assumes "first \<noteq> last'"
  shows "next (splice_range h pos first last' c) =
    (if c = previous (h last') then pos
     else if c = previous (h first) then last'
     else if c = previous (h pos) then first else next (h c))"
  using assms by (simp add: splice_range_def Let_def)

lemma splice_range_previous:
  assumes "first \<noteq> last'"
  shows "previous (splice_range h pos first last' c) =
    (if c = last' then previous (h first)
     else if c = first then previous (h pos)
     else if c = pos then previous (h last') else previous (h c))"
  using assms by (simp add: splice_range_def Let_def)

lemma splice_range_frame:
  assumes "c \<notin> {pos, first, last', previous (h pos), previous (h first), previous (h last')}"
  shows "splice_range h pos first last' c = h c"
  using assms by (simp add: splice_range_def Let_def set_next_def set_previous_def)

lemma successively_join2:
  assumes "successively P xs" and "successively P ys" and "successively P zs"
    and "P (last xs) (hd ys)" and "P (last ys) (hd zs)" and "ys \<noteq> []"
  shows "successively P (xs @ ys @ zs)"
  using assms by (simp add: successively_append_iff)

lemma seg_frame':
  assumes "successively (link h) cs" and "distinct cs" and "last cs = e" and "hd cs = s"
    and "\<And>c. c \<in> set cs \<Longrightarrow> c \<noteq> e \<Longrightarrow> next (h' c) = next (h c)"
    and "\<And>c. c \<in> set cs \<Longrightarrow> c \<noteq> s \<Longrightarrow> previous (h' c) = previous (h c)"
  shows "successively (link h') cs"
  using assms by (intro seg_frame [of h cs h']) auto

lemma dlist_splice:
  assumes a: "dlist h a (ps @ qs)" and b: "dlist h b (us @ rs @ vs)" and rs: "rs \<noteq> []"
    and disj: "set (a # ps @ qs) \<inter> set (b # us @ rs @ vs) = {}"
  shows "dlist (splice_range h (hd (qs @ [a])) (hd rs) (hd (vs @ [b]))) a (ps @ rs @ qs)"
    and "dlist (splice_range h (hd (qs @ [a])) (hd rs) (hd (vs @ [b]))) b (us @ vs)"
    and "\<And>c. c \<notin> set (a # ps @ qs) \<Longrightarrow> c \<notin> set (b # us @ rs @ vs)
          \<Longrightarrow> splice_range h (hd (qs @ [a])) (hd rs) (hd (vs @ [b])) c = h c"
proof -
  define pos fst lst bp bf bl where "pos = hd (qs @ [a])" and "fst = hd rs"
    and "lst = hd (vs @ [b])" and "bp = last (a # ps)" and "bf = last (b # us)"
    and "bl = last rs"
  note defs = this
  define h' where "h' = splice_range h pos fst lst"
  have da: "distinct (a # ps @ qs)" using a by (simp add: dlist_def)
  have db: "distinct (b # us @ rs @ vs)" using b by (simp add: dlist_def)
  have bp: "previous (h pos) = bp" unfolding defs using a by (rule dlist_previous_pos)
  have "previous (h (hd ((rs @ vs) @ [b]))) = bf"
    unfolding defs using b by (intro dlist_previous_pos) simp
  then have bf: "previous (h fst) = bf" using rs by (simp add: defs)
  have "previous (h lst) = last (b # us @ rs)"
    unfolding defs using b by (intro dlist_previous_pos) simp
  then have bl: "previous (h lst) = bl" using rs by (simp add: defs)
  have fst_in: "fst \<in> set rs" and bl_in: "bl \<in> set rs" using rs by (simp_all add: defs)
  have lst_in: "lst \<in> set (vs @ [b])" unfolding defs by (rule hd_snoc_in)
  have pos_in: "pos \<in> set (qs @ [a])" unfolding defs by (rule hd_snoc_in)
  have bp_in: "bp \<in> set (a # ps)" unfolding defs by (rule last_Cons_in)
  have bf_in: "bf \<in> set (b # us)" unfolding defs by (rule last_Cons_in)
  have fl: "fst \<noteq> lst" using fst_in lst_in db by auto
  note nf = splice_range_next [of fst lst h pos, unfolded bp bf bl, OF fl, folded h'_def]
  note pf = splice_range_previous [of fst lst h pos, unfolded bp bf bl, OF fl, folded h'_def]
  from a have sa: "successively (link h) ((a # ps) @ (qs @ [a]))" by (simp add: dlist_def)
  from b have sb: "successively (link h) ((b # us) @ rs @ (vs @ [b]))" by (simp add: dlist_def)
  note sb2 = successively_split(2) [OF sb]
  have s1: "successively (link h') (a # ps)"
  proof (rule seg_frame' [OF successively_split(1) [OF sa], where e = bp and s = a])
    show "distinct (a # ps)" using da by simp
    show "next (h' c) = next (h c)" if "c \<in> set (a # ps)" "c \<noteq> bp" for c
      using that disj bf_in bl_in by (auto simp: nf)
    show "previous (h' c) = previous (h c)" if "c \<in> set (a # ps)" "c \<noteq> a" for c
      using that disj da pos_in fst_in lst_in by (auto simp: pf)
  qed (simp_all add: defs)
  have s2: "successively (link h') (qs @ [a])"
  proof (rule seg_frame' [OF successively_split(2) [OF sa], where e = a and s = pos])
    show "distinct (qs @ [a])" using da by simp
    show "next (h' c) = next (h c)" if "c \<in> set (qs @ [a])" "c \<noteq> a" for c
      using that disj da bf_in bl_in bp_in by (auto simp: nf)
    show "previous (h' c) = previous (h c)" if "c \<in> set (qs @ [a])" "c \<noteq> pos" for c
      using that disj fst_in lst_in by (auto simp: pf)
  qed (simp_all add: defs)
  have s3: "successively (link h') rs"
  proof (rule seg_frame' [OF successively_split(1) [OF sb2], where e = bl and s = fst])
    show "distinct rs" using db by simp
    show "next (h' c) = next (h c)" if "c \<in> set rs" "c \<noteq> bl" for c
      using that disj db bf_in bp_in by (auto simp: nf)
    show "previous (h' c) = previous (h c)" if "c \<in> set rs" "c \<noteq> fst" for c
      using that disj db pos_in lst_in by (auto simp: pf)
  qed (simp_all add: defs)
  have s4: "successively (link h') (b # us)"
  proof (rule seg_frame' [OF successively_split(1) [OF sb], where e = bf and s = b])
    show "distinct (b # us)" using db by simp
    show "next (h' c) = next (h c)" if "c \<in> set (b # us)" "c \<noteq> bf" for c
      using that disj db bl_in bp_in by (auto simp: nf)
    show "previous (h' c) = previous (h c)" if "c \<in> set (b # us)" "c \<noteq> b" for c
      using that disj db pos_in lst_in fst_in by (auto simp: pf)
  qed (simp_all add: defs)
  have s5: "successively (link h') (vs @ [b])"
  proof (rule seg_frame' [OF successively_split(2) [OF sb2], where e = b and s = lst])
    show "distinct (vs @ [b])" using db by simp
    show "next (h' c) = next (h c)" if "c \<in> set (vs @ [b])" "c \<noteq> b" for c
      using that disj db bl_in bp_in bf_in by (auto simp: nf)
    show "previous (h' c) = previous (h c)" if "c \<in> set (vs @ [b])" "c \<noteq> lst" for c
      using that disj db pos_in fst_in by (auto simp: pf)
  qed (simp_all add: defs)
  have bl_bf: "bl \<noteq> bf" using bl_in bf_in db by auto
  have bl_bp: "bl \<noteq> bp" using bl_in bp_in disj by auto
  have bf_bp: "bf \<noteq> bp" using bf_in bp_in disj by auto
  have f_p: "fst \<noteq> pos" using fst_in pos_in disj by auto
  have l_p: "lst \<noteq> pos" using lst_in pos_in disj by auto
  have j1: "link h' (last (a # ps)) (hd rs)"
    using bl_bp bf_bp fl unfolding defs [symmetric] by (simp add: link_def nf pf)
  have j2: "link h' (last rs) (hd (qs @ [a]))"
    using l_p f_p unfolding defs [symmetric] by (simp add: link_def nf pf)
  have j3: "link h' (last (b # us)) (hd (vs @ [b]))"
    using bl_bf unfolding defs [symmetric] by (simp add: link_def nf pf)
  have "successively (link h') ((a # ps) @ rs @ (qs @ [a]))"
    by (rule successively_join2 [OF s1 s3 s2 j1 j2 rs])
  moreover have "distinct (a # ps @ rs @ qs)" using da db disj by auto
  ultimately show "dlist (splice_range h (hd (qs @ [a])) (hd rs) (hd (vs @ [b]))) a (ps @ rs @ qs)"
    by (simp add: dlist_def h'_def defs)
  have "successively (link h') ((b # us) @ (vs @ [b]))"
    by (rule successively_join [OF s4 s5 j3])
  moreover have "distinct (b # us @ vs)" using db by auto
  ultimately show "dlist (splice_range h (hd (qs @ [a])) (hd rs) (hd (vs @ [b]))) b (us @ vs)"
    by (simp add: dlist_def h'_def defs)
  show "splice_range h (hd (qs @ [a])) (hd rs) (hd (vs @ [b])) c = h c"
    if "c \<notin> set (a # ps @ qs)" "c \<notin> set (b # us @ rs @ vs)" for c
  proof -
    have "c \<notin> {pos, fst, lst, previous (h pos), previous (h fst), previous (h lst)}"
      using that pos_in fst_in lst_in bp_in bf_in bl_in by (auto simp: bp bf bl)
    then show ?thesis unfolding defs by (rule splice_range_frame)
  qed
qed

section \<open>The loop of merge\<close>

lemma set_merge_lists: "set (merge_lists c xs ys) = set xs \<union> set ys"
  by (induction c xs ys rule: merge_lists.induct) auto

lemma dlist_move_before:
  assumes a: "dlist h a (ps @ qs)" and b: "dlist h b (us @ y # vs)"
    and disj: "set (a # ps @ qs) \<inter> set (b # us @ y # vs) = {}"
  shows "dlist (list_insert (list_remove h y) (hd (qs @ [a])) y) a (ps @ y # qs)"
    and "dlist (list_insert (list_remove h y) (hd (qs @ [a])) y) b (us @ vs)"
    and "\<And>c. c \<notin> set (a # ps @ qs) \<Longrightarrow> c \<notin> set (b # us @ y # vs)
          \<Longrightarrow> list_insert (list_remove h y) (hd (qs @ [a])) y c = h c"
proof -
  let ?h1 = "node_remove h y"
  let ?h2 = "node_insert_before ?h1 (hd (qs @ [a])) y"
  have fr1: "?h1 c = h c" if "c \<notin> set (b # us @ y # vs)" for c
    using b that by (rule dlist_remove_frame)
  have b1: "dlist ?h1 b (us @ vs)" using b by (rule dlist_remove)
  have a1: "dlist ?h1 a (ps @ qs)"
    using a disj by (intro dlist_frame [OF a] ballI fr1) blast
  have ya: "y \<notin> set (a # ps @ qs)" using disj by auto
  have fr2: "?h2 c = ?h1 c" if "c \<notin> set (a # ps @ qs)" "c \<noteq> y" for c
    using a1 that by (rule dlist_insert_before_frame)
  have db: "distinct (b # us @ y # vs)" using b by (simp add: dlist_def)
  show "dlist (list_insert (list_remove h y) (hd (qs @ [a])) y) a (ps @ y # qs)"
    unfolding list_insert_def list_remove_def using a1 ya by (rule dlist_insert_before)
  show "dlist (list_insert (list_remove h y) (hd (qs @ [a])) y) b (us @ vs)"
    unfolding list_insert_def list_remove_def
  proof (rule dlist_frame [OF b1], rule ballI, rule fr2)
    fix c assume "c \<in> set (b # us @ vs)"
    then show "c \<notin> set (a # ps @ qs)" "c \<noteq> y" using disj db by auto
  qed
  show "list_insert (list_remove h y) (hd (qs @ [a])) y c = h c"
    if "c \<notin> set (a # ps @ qs)" "c \<notin> set (b # us @ y # vs)" for c
    unfolding list_insert_def list_remove_def using that fr1 [of c] fr2 [of c] by simp
qed

lemma merge_loop_correct:
  assumes "dlist h a (ps @ qs)" and "dlist h b ys"
    and "set (a # ps @ qs) \<inter> set (b # ys) = {}"
  shows "\<exists>h'. merge_loop cmp a b h (hd (qs @ [a])) (hd (ys @ [b])) = Some h'
    \<and> dlist h' a (ps @ merge_lists cmp qs ys) \<and> dlist h' b []
    \<and> (\<forall>c. c \<notin> set (a # ps @ qs) \<longrightarrow> c \<notin> set (b # ys) \<longrightarrow> h' c = h c)"
  using assms
proof (induction cmp qs ys arbitrary: h ps rule: merge_lists.induct)
  case (1 cmp ys)
  show ?case
  proof (cases ys)
    case Nil
    then show ?thesis using 1
      by (subst merge_loop.simps) (simp add: list_end_def splice_range_def)
  next
    case (Cons y ys')
    have a: "dlist h a (ps @ [])" using 1 by simp
    have b: "dlist h b ([] @ ys @ [])" using 1 by simp
    have d: "set (a # ps @ []) \<inter> set (b # [] @ ys @ []) = {}" using 1 by simp
    have ne: "ys \<noteq> []" using Cons by simp
    note s = dlist_splice [OF a b ne d]
    show ?thesis using s Cons
      by (subst merge_loop.simps) (simp add: list_end_def)
  qed
next
  case (2 cmp x xs)
  have "x \<noteq> a" using 2(1) by (auto simp: dlist_def)
  then show ?case using 2
    by (subst merge_loop.simps) (simp add: list_end_def)
next
  case (3 cmp x xs y ys)
  have xa: "x \<noteq> a" using 3(3) by (auto simp: dlist_def)
  have yb: "y \<noteq> b" using 3(4) by (auto simp: dlist_def)
  show ?case
  proof (cases "cmp x y")
    case True
    have nx: "next (h x) = hd (xs @ [a])" using 3(3) by (rule dlist_next)
    have a: "dlist h a ((ps @ [x]) @ xs)" using 3(3) by simp
    have d: "set (a # (ps @ [x]) @ xs) \<inter> set (b # y # ys) = {}" using 3(5) by simp
    from "3.IH"(1) [OF True a 3(4) d]
    obtain h' where h': "merge_loop cmp a b h (hd (xs @ [a])) (hd ((y # ys) @ [b])) = Some h'"
      "dlist h' a ((ps @ [x]) @ merge_lists cmp xs (y # ys))" "dlist h' b []"
      "\<forall>c. c \<notin> set (a # (ps @ [x]) @ xs) \<longrightarrow> c \<notin> set (b # y # ys) \<longrightarrow> h' c = h c"
      by blast
    show ?thesis using h' True xa yb
      by (subst merge_loop.simps) (simp add: list_end_def nx)
  next
    case False
    let ?h = "list_insert (list_remove h y) x y"
    have ny: "next (h y) = hd (ys @ [b])" using 3(4) dlist_next [of h b "[]" y ys] by simp
    have b: "dlist h b ([] @ y # ys)" using 3(4) by simp
    have d: "set (a # ps @ x # xs) \<inter> set (b # [] @ y # ys) = {}" using 3(5) by simp
    note m = dlist_move_before [OF 3(3) b d, simplified]
    have a': "dlist ?h a ((ps @ [y]) @ x # xs)" using m(1) by simp
    have d': "set (a # (ps @ [y]) @ x # xs) \<inter> set (b # ys) = {}"
      using 3(4,5) by (auto simp: dlist_def)
    from "3.IH"(2) [OF False a' m(2) d']
    obtain h' where h': "merge_loop cmp a b ?h (hd ((x # xs) @ [a])) (hd (ys @ [b])) = Some h'"
      "dlist h' a ((ps @ [y]) @ merge_lists cmp (x # xs) ys)" "dlist h' b []"
      "\<forall>c. c \<notin> set (a # (ps @ [y]) @ x # xs) \<longrightarrow> c \<notin> set (b # ys) \<longrightarrow> h' c = ?h c"
      by blast
    have fr: "h' c = h c" if "c \<notin> set (a # ps @ x # xs)" "c \<notin> set (b # y # ys)" for c
      using that h'(4) m(3) [of c] by auto
    show ?thesis using h'(1-3) fr False xa yb
      by (subst merge_loop.simps) (simp add: list_end_def ny)
  qed
qed

section \<open>Merging ascending lists\<close>

lemma swo_irrefl: "strict_weak_order c \<Longrightarrow> \<not> c x x"
  by (simp add: strict_weak_order_def)

lemma swo_trans: "strict_weak_order c \<Longrightarrow> c x y \<Longrightarrow> c y z \<Longrightarrow> c x z"
  unfolding strict_weak_order_def by blast

lemma swo_asym: "strict_weak_order c \<Longrightarrow> c x y \<Longrightarrow> \<not> c y x"
  using swo_irrefl swo_trans by metis

lemma swo_negtrans:
  assumes "strict_weak_order c" and "c x z"
  shows "c x y \<or> c y z"
proof (rule ccontr)
  assume n: "\<not> (c x y \<or> c y z)"
  have 1: "\<not> c y x" using assms n swo_trans by metis
  have 2: "\<not> c z y" using assms n swo_trans by metis
  have "\<not> c x y \<and> \<not> c y x \<and> \<not> c y z \<and> \<not> c z y" using n 1 2 by simp
  then have "\<not> c x z" using assms(1) unfolding strict_weak_order_def by blast
  with assms(2) show False by simp
qed

lemma precedes_Cons: "precedes (z # zs) x y = (if z = x then y \<in> set zs else precedes zs x y)"
  by (simp add: precedes_def)

lemma precedes_Nil [simp]: "\<not> precedes [] x y"
  by (simp add: precedes_def)

lemma precedes_iff:
  "precedes zs x y = (\<exists>us vs. zs = us @ x # vs \<and> x \<notin> set us \<and> y \<in> set vs)"
proof (induction zs)
  case Nil
  then show ?case by simp
next
  case (Cons z zs)
  show ?case
  proof (cases "z = x")
    case True
    have "(\<exists>us vs. z # zs = us @ x # vs \<and> x \<notin> set us \<and> y \<in> set vs) = (y \<in> set zs)"
    proof
      assume "\<exists>us vs. z # zs = us @ x # vs \<and> x \<notin> set us \<and> y \<in> set vs"
      then obtain us vs where e: "z # zs = us @ x # vs" "x \<notin> set us" "y \<in> set vs" by blast
      with True have "us = []" by (cases us) auto
      with e show "y \<in> set zs" by simp
    next
      assume "y \<in> set zs"
      with True have "z # zs = [] @ x # zs \<and> x \<notin> set [] \<and> y \<in> set zs" by simp
      then show "\<exists>us vs. z # zs = us @ x # vs \<and> x \<notin> set us \<and> y \<in> set vs" by blast
    qed
    with True show ?thesis by (simp add: precedes_Cons)
  next
    case False
    have "(\<exists>us vs. z # zs = us @ x # vs \<and> x \<notin> set us \<and> y \<in> set vs)
        = (\<exists>us vs. zs = us @ x # vs \<and> x \<notin> set us \<and> y \<in> set vs)"
    proof
      assume "\<exists>us vs. z # zs = us @ x # vs \<and> x \<notin> set us \<and> y \<in> set vs"
      then obtain us vs where e: "z # zs = us @ x # vs" "x \<notin> set us" "y \<in> set vs" by blast
      with False obtain us' where "us = z # us'" by (cases us) auto
      with e have "zs = us' @ x # vs \<and> x \<notin> set us' \<and> y \<in> set vs" by simp
      then show "\<exists>us vs. zs = us @ x # vs \<and> x \<notin> set us \<and> y \<in> set vs" by blast
    next
      assume "\<exists>us vs. zs = us @ x # vs \<and> x \<notin> set us \<and> y \<in> set vs"
      then obtain us vs where e: "zs = us @ x # vs" "x \<notin> set us" "y \<in> set vs" by blast
      with False have "z # zs = (z # us) @ x # vs \<and> x \<notin> set (z # us) \<and> y \<in> set vs" by simp
      then show "\<exists>us vs. z # zs = us @ x # vs \<and> x \<notin> set us \<and> y \<in> set vs" by blast
    qed
    with False Cons show ?thesis by (simp add: precedes_Cons)
  qed
qed

lemma precedes_in: "precedes zs x y \<Longrightarrow> x \<in> set zs \<and> y \<in> set zs"
  by (induction zs) (auto simp: precedes_Cons split: if_splits)

lemma precedes_antisym:
  assumes "distinct zs" and "precedes zs x y"
  shows "\<not> precedes zs y x"
  using assms
proof (induction zs)
  case Nil
  then show ?case by simp
next
  case (Cons z zs)
  show ?case
  proof (cases "z = x")
    case True
    with Cons.prems have "y \<in> set zs" "x \<notin> set zs" by (simp_all add: precedes_Cons)
    then have "z \<noteq> y" "\<not> precedes zs y x" using True precedes_in [of zs y x] by auto
    then show ?thesis by (simp add: precedes_Cons)
  next
    case False
    with Cons.prems have p: "precedes zs x y" by (simp add: precedes_Cons)
    then have "x \<in> set zs" "y \<in> set zs" using precedes_in [of zs x y] by simp_all
    then have "z \<noteq> y" using Cons.prems(1) by auto
    then show ?thesis using Cons.IH p Cons.prems(1) by (simp add: precedes_Cons)
  qed
qed

lemma mset_merge_lists: "mset (merge_lists c xs ys) = mset xs + mset ys"
  by (induction c xs ys rule: merge_lists.induct) auto

lemma ascending_Cons: "ascending c (x # xs) = ((\<forall>z \<in> set xs. \<not> c z x) \<and> ascending c xs)"
  by (simp add: ascending_def)

lemma ascending_merge_lists:
  assumes "strict_weak_order c" and "ascending c xs" and "ascending c ys"
  shows "ascending c (merge_lists c xs ys)"
  using assms
proof (induction c xs ys rule: merge_lists.induct)
  case (3 c x xs y ys)
  note swo = "3.prems"(1)
  show ?case
  proof (cases "c x y")
    case True
    have "\<not> c z x" if "z \<in> set (y # ys)" for z
    proof
      assume "c z x"
      then have "c z y" using True swo_trans [OF swo] by blast
      moreover have "\<not> c y y" using swo by (rule swo_irrefl)
      ultimately show False using that "3.prems"(3) by (auto simp: ascending_Cons)
    qed
    then show ?thesis using True 3 by (auto simp: ascending_Cons set_merge_lists)
  next
    case False
    have "\<not> c z y" if "z \<in> set (x # xs)" for z
    proof
      assume "c z y"
      then have "c z x \<or> c x y" using swo swo_negtrans by metis
      moreover have "\<not> c x x" using swo by (rule swo_irrefl)
      ultimately show False using that False "3.prems"(2) by (auto simp: ascending_Cons)
    qed
    then show ?thesis using False 3 by (auto simp: ascending_Cons set_merge_lists)
  qed
qed (simp_all add: ascending_def)

lemma merge_lists_order:
  assumes "strict_weak_order c" and "ascending c xs" and "ascending c ys"
    and "distinct (xs @ ys)" and "x \<in> set xs" and "y \<in> set ys"
  shows "if c x y then precedes (merge_lists c xs ys) x y else precedes (merge_lists c xs ys) y x"
  using assms
proof (induction c xs ys rule: merge_lists.induct)
  case (3 c x0 xs y0 ys)
  note swo = "3.prems"(1) and ax = "3.prems"(2) and ay = "3.prems"(3) and d = "3.prems"(4)
    and xin = "3.prems"(5) and yin = "3.prems"(6)
  show ?case
  proof (cases "c x0 y0")
    case True
    show ?thesis
    proof (cases "x = x0")
      case x: True
      have "\<not> c y y0" using ay yin swo_irrefl [OF swo] by (auto simp: ascending_Cons)
      moreover have "c x0 y \<or> c y y0" using swo True swo_negtrans by metis
      ultimately have "c x0 y" by simp
      then show ?thesis using x True yin by (auto simp: precedes_Cons set_merge_lists)
    next
      case False
      then have "x \<in> set xs" using xin by simp
      moreover have "y \<noteq> x0" using d yin by auto
      moreover have "ascending c xs" using ax by (simp add: ascending_Cons)
      moreover have "distinct (xs @ y0 # ys)" using d by simp
      ultimately show ?thesis using "3.IH"(1) [OF True swo] ay yin True False
        by (simp add: precedes_Cons)
    qed
  next
    case False
    show ?thesis
    proof (cases "y = y0")
      case y: True
      have "\<not> c x x0" using ax xin swo_irrefl [OF swo] by (auto simp: ascending_Cons)
      moreover have "c x y0 \<longrightarrow> c x x0 \<or> c x0 y0" using swo swo_negtrans by metis
      ultimately have "\<not> c x y0" using False by simp
      then show ?thesis using y False xin by (auto simp: precedes_Cons set_merge_lists)
    next
      case ny: False
      then have "y \<in> set ys" using yin by simp
      moreover have "x \<noteq> y0" using d xin by auto
      moreover have "ascending c ys" using ay by (simp add: ascending_Cons)
      moreover have "distinct ((x0 # xs) @ ys)" using d by simp
      ultimately show ?thesis using "3.IH"(2) [OF False swo] ax xin False ny
        by (simp add: precedes_Cons)
    qed
  qed
qed simp_all

lemma filter_merge_lists_left:
  "distinct (xs @ ys) \<Longrightarrow> filter (\<lambda>z. z \<in> set xs) (merge_lists c xs ys) = xs"
proof (induction c xs ys rule: merge_lists.induct)
  case (1 c ys)
  then show ?case by simp
next
  case (2 c x xs)
  then show ?case by (simp add: filter_id_conv)
next
  case (3 c x xs y ys)
  have *: "filter (\<lambda>z. z = x \<or> z \<in> set xs) zs = filter (\<lambda>z. z \<in> set xs) zs" if "x \<notin> set zs" for zs
    using that by (intro filter_cong) auto
  show ?case using 3 by (auto simp: * set_merge_lists)
qed

section \<open>The test objects are well formed\<close>

lemma swo_less_by: "strict_weak_order (less_by val)"
  by (auto simp: strict_weak_order_def less_by_def)

lemma push_back_all_correct:
  assumes "dlist h l xs" and "\<forall>v \<in> set vs. self_linked h v" and "distinct vs"
    and "set vs \<inter> set (l # xs) = {}"
  shows "\<exists>h'. push_back_all h l vs = Some h' \<and> dlist h' l (xs @ vs)
    \<and> (\<forall>c. c \<notin> set (l # xs @ vs) \<longrightarrow> h' c = h c)"
  using assms
proof (induction vs arbitrary: h xs)
  case Nil
  then show ?case by simp
next
  case (Cons v vs)
  let ?h1 = "node_insert_before h (hd ([] @ [l])) v"
  have d0: "dlist h l (xs @ [])" using Cons.prems(1) by simp
  have v: "v \<notin> set (l # xs @ [])" using Cons.prems(4) by auto
  have d1: "dlist ?h1 l ((xs @ [v]) @ [])" using dlist_insert_before [OF d0 v] by simp
  have fr: "?h1 c = h c" if "c \<notin> set (l # xs @ [])" "c \<noteq> v" for c
    using d0 that by (rule dlist_insert_before_frame)
  have s1: "\<forall>w \<in> set vs. self_linked ?h1 w"
  proof
    fix w assume w: "w \<in> set vs"
    then have "?h1 w = h w" using Cons.prems(3,4) by (intro fr) auto
    then show "self_linked ?h1 w" using Cons.prems(2) w by (simp add: self_linked_def)
  qed
  have dv: "distinct vs" and di: "set vs \<inter> set (l # xs @ [v]) = {}"
    using Cons.prems(3,4) by auto
  from Cons.IH [of ?h1 "xs @ [v]"] d1 s1 dv di
  obtain h' where h': "push_back_all ?h1 l vs = Some h'" "dlist h' l ((xs @ [v]) @ vs)"
    "\<forall>c. c \<notin> set (l # (xs @ [v]) @ vs) \<longrightarrow> h' c = ?h1 c" by auto
  have "\<not> in_list h v" using Cons.prems(2) by (simp add: self_linked_def in_list_def)
  then have "push_back_all h l (v # vs) = Some h'" using h'(1) by (simp add: push_back_def)
  moreover have "\<forall>c. c \<notin> set (l # xs @ v # vs) \<longrightarrow> h' c = h c"
    using h'(3) fr by auto
  ultimately show ?case using h'(2) by simp
qed

lemma dlist_list_construct: "dlist (list_construct h l) l []"
  by (simp add: dlist_Nil_iff self_linked_def list_construct_def)

lemma dlist_two_lists: "dlist two_lists 0 [1, 2]" "dlist two_lists 10 [11, 12]"
  by (simp_all add: two_lists_def dlist_def link_def push_back_def in_list_def
      node_insert_before_def Let_def list_construct_def fresh_def)

text \<open>
  C10. On an empty container (its header is self-linked) \<open>pop_front\<close> and \<open>pop_back\<close>
  remove the header itself, which writes nothing new: the store is unchanged, so the
  container is still empty and no other link field is touched.
\<close>

theorem pop_empty_unchanged:
  assumes "dlist h l []"
  shows "pop_front h l = h \<and> pop_back h l = h \<and> list_empty (pop_front h l) l
    \<and> list_empty (pop_back h l) l"
proof -
  from assms have "next (h l) = l" by (simp add: dlist_Nil_iff self_linked_def)
  then show ?thesis using pop_empty_id [OF assms] by (simp add: list_empty_def in_list_def)
qed

theorem pop_empty_unchanged_witness:
  "dlist (list_construct fresh 7) 7 [] \<and> pop_front (list_construct fresh 7) 7 = list_construct fresh 7
    \<and> pop_back (list_construct fresh 7) 7 = list_construct fresh 7"
proof -
  have d: "dlist (list_construct fresh 7) 7 []"
    by (simp add: dlist_def link_def list_construct_def)
  show ?thesis using d pop_empty_unchanged [OF d] by simp
qed

section \<open>remove and reinsertion\<close>

lemma node_remove_idem: "node_remove (node_remove h n) n = node_remove h n"
  using node_remove_self_linked [of h n] by (rule node_remove_self_linked_id)

lemma push_back_after_remove:
  assumes d: "dlist h l xs" and n: "n \<in> set xs"
  shows "\<exists>h'. push_back (node_remove h n) l n = Some h' \<and> dlist h' l (remove1 n xs @ [n])"
proof -
  from n obtain us vs where xs: "xs = us @ n # vs" by (meson split_list)
  have dist: "distinct (l # us @ n # vs)" using d xs by (simp add: dlist_def)
  then have r: "remove1 n xs = us @ vs" by (simp add: xs remove1_append)
  let ?h1 = "node_remove h n"
  have d1: "dlist ?h1 l ((us @ vs) @ [])" using d xs dlist_remove [of h l us n vs] by simp
  have nn: "n \<notin> set (l # (us @ vs) @ [])" using dist by auto
  have "dlist (node_insert_before ?h1 (hd ([] @ [l])) n) l ((us @ vs) @ n # [])"
    using d1 nn by (rule dlist_insert_before)
  moreover have "\<not> in_list ?h1 n"
    using node_remove_self_linked [of h n] by (simp add: self_linked_def in_list_def)
  ultimately show ?thesis by (simp add: push_back_def r)
qed

lemma push_back_other_after_remove:
  assumes d: "dlist h l xs" and n: "n \<in> set xs" and m: "dlist h m ys"
    and disj: "set (l # xs) \<inter> set (m # ys) = {}"
  shows "\<exists>h'. push_back (node_remove h n) m n = Some h' \<and> dlist h' m (ys @ [n])
    \<and> dlist h' l (remove1 n xs)"
proof -
  from n obtain us vs where xs: "xs = us @ n # vs" by (meson split_list)
  have dist: "distinct (l # us @ n # vs)" using d xs by (simp add: dlist_def)
  then have r: "remove1 n xs = us @ vs" by (simp add: xs remove1_append)
  let ?h1 = "node_remove h n"
  let ?h2 = "node_insert_before ?h1 (hd ([] @ [m])) n"
  have dx: "dlist h l (us @ n # vs)" using d xs by simp
  have d1: "dlist ?h1 l (us @ vs)" using dx by (rule dlist_remove)
  have "\<forall>a \<in> set (m # ys). ?h1 a = h a"
    using disj xs by (intro ballI dlist_remove_frame [OF dx]) auto
  with m have m1: "dlist ?h1 m (ys @ [])" by (simp add: dlist_frame)
  have nn: "n \<notin> set (m # ys @ [])" using disj n by auto
  have m2: "dlist ?h2 m (ys @ n # [])" using m1 nn by (rule dlist_insert_before)
  have "\<forall>a \<in> set (l # us @ vs). ?h2 a = ?h1 a"
    using disj xs dist by (intro ballI dlist_insert_before_frame [OF m1]) auto
  with d1 have d2: "dlist ?h2 l (us @ vs)" by (rule dlist_frame)
  have "\<not> in_list ?h1 n"
    using node_remove_self_linked [of h n] by (simp add: self_linked_def in_list_def)
  then show ?thesis using m2 d2 by (simp add: push_back_def r)
qed

text \<open>
  C6. After \<open>remove\<close> a link field is self-linked, whatever the store was, so
  \<open>in_list\<close> is false; on a self-linked link field \<open>remove\<close> changes nothing, and
  \<open>remove\<close> after \<open>remove\<close> is \<open>remove\<close>. An object removed from a container can be
  pushed back at once into the same container or into another one: the assertion of
  \<open>push_back\<close> passes and the containers are well linked.
\<close>

theorem remove_self_linked_idempotent:
  "self_linked (node_remove h n) n \<and> \<not> in_list (node_remove h n) n
    \<and> (self_linked h n \<longrightarrow> node_remove h n = h)
    \<and> node_remove (node_remove h n) n = node_remove h n
    \<and> (dlist h l xs \<and> n \<in> set xs \<longrightarrow>
          (\<exists>h'. push_back (node_remove h n) l n = Some h' \<and> dlist h' l (remove1 n xs @ [n])))
    \<and> (dlist h l xs \<and> n \<in> set xs \<and> dlist h m ys \<and> set (l # xs) \<inter> set (m # ys) = {} \<longrightarrow>
          (\<exists>h'. push_back (node_remove h n) m n = Some h' \<and> dlist h' m (ys @ [n])
             \<and> dlist h' l (remove1 n xs)))"
proof -
  have "self_linked (node_remove h n) n" by (rule node_remove_self_linked)
  moreover from this have "\<not> in_list (node_remove h n) n"
    by (simp add: self_linked_def in_list_def)
  moreover have "self_linked h n \<longrightarrow> node_remove h n = h"
    by (simp add: node_remove_self_linked_id)
  moreover have "node_remove (node_remove h n) n = node_remove h n" by (rule node_remove_idem)
  ultimately show ?thesis
    using push_back_after_remove [of h l xs n] push_back_other_after_remove [of h l xs n m ys]
    by blast
qed

theorem remove_self_linked_idempotent_witness:
  "dlist two_lists 0 [1, 2] \<and> dlist two_lists 10 [11, 12] \<and> in_list two_lists 1
    \<and> self_linked (node_remove two_lists 1) 1 \<and> \<not> in_list (node_remove two_lists 1) 1
    \<and> self_linked fresh 1 \<and> node_remove fresh 1 = fresh
    \<and> (\<exists>h'. push_back (node_remove two_lists 1) 0 1 = Some h' \<and> dlist h' 0 [2, 1])
    \<and> (\<exists>h'. push_back (node_remove two_lists 1) 10 1 = Some h' \<and> dlist h' 10 [11, 12, 1]
          \<and> dlist h' 0 [2])"
proof -
  have i: "in_list two_lists 1"
    using dlist_header_next [OF dlist_two_lists(1)] dlist_next [of two_lists 0 "[]" 1 "[2]"]
      dlist_two_lists(1) by (simp add: in_list_def)
  have f: "self_linked fresh 1" by (simp add: self_linked_def fresh_def)
  have d: "set (0 # [1, 2]) \<inter> set (10 # [11, 12 :: addr]) = {}" by simp
  have m: "(1 :: addr) \<in> set [1, 2]" by simp
  show ?thesis
    using remove_self_linked_idempotent [of two_lists 1 0 "[1, 2]" 10 "[11, 12]"]
      remove_self_linked_idempotent [of fresh 1 0 "[]" 0 "[]"]
      dlist_two_lists i f d m by simp
qed

section \<open>merge\<close>

lemma merge_correct:
  assumes "dlist h a xs" and "dlist h b ys" and "set (a # xs) \<inter> set (b # ys) = {}"
  shows "\<exists>h'. merge cmp h a b = Some h' \<and> dlist h' a (merge_lists cmp xs ys) \<and> dlist h' b []
    \<and> (\<forall>c. c \<notin> set (a # xs) \<longrightarrow> c \<notin> set (b # ys) \<longrightarrow> h' c = h c)"
proof -
  have a: "dlist h a ([] @ xs)" using assms(1) by simp
  have d: "set (a # [] @ xs) \<inter> set (b # ys) = {}" using assms(3) by simp
  have "list_begin h a = hd (xs @ [a])" "list_begin h b = hd (ys @ [b])"
    using assms(1,2) by (simp_all add: list_begin_def dlist_header_next)
  then show ?thesis
    using merge_loop_correct [OF a assms(2) d, of cmp] by (simp add: merge_def)
qed

text \<open>
  C3. When \<open>this\<close> and \<open>other\<close> are two containers with no link field in common, each
  ascending under a strict weak order, \<open>merge\<close> returns, \<open>this\<close> then holds a
  permutation of the elements of both, ascending under the comparator, and \<open>other\<close>
  is empty.
\<close>

theorem merge_sorted_union:
  assumes "dlist h this xs" and "dlist h other ys"
    and "set (this # xs) \<inter> set (other # ys) = {}"
    and "strict_weak_order compare" and "ascending compare xs" and "ascending compare ys"
  shows "\<exists>h' zs. merge compare h this other = Some h' \<and> dlist h' this zs
    \<and> mset zs = mset xs + mset ys \<and> ascending compare zs
    \<and> dlist h' other [] \<and> list_empty h' other"
proof -
  from merge_correct [OF assms(1-3), of compare]
  obtain h' where h': "merge compare h this other = Some h'"
    "dlist h' this (merge_lists compare xs ys)" "dlist h' other []"
    by blast
  have "list_empty h' other"
    using h'(3) by (simp add: dlist_Nil_iff self_linked_def list_empty_def in_list_def)
  moreover have "ascending compare (merge_lists compare xs ys)"
    using assms(4-6) by (rule ascending_merge_lists)
  ultimately show ?thesis using h' mset_merge_lists [of compare xs ys] by blast
qed

theorem merge_sorted_union_witness:
  "dlist two_lists 0 [1, 2] \<and> dlist two_lists 10 [11, 12]
    \<and> ascending (less_by tie_value) [1, 2] \<and> ascending (less_by tie_value) [11, 12]
    \<and> (\<exists>h' zs. merge (less_by tie_value) two_lists 0 10 = Some h' \<and> dlist h' 0 zs
        \<and> mset zs = mset [1, 2] + mset [11, 12] \<and> ascending (less_by tie_value) zs
        \<and> dlist h' 10 [] \<and> list_empty h' 10)"
proof -
  have d: "set (0 # [1, 2]) \<inter> set (10 # [11, 12 :: addr]) = {}" by simp
  have a1: "ascending (less_by tie_value) [1, 2]"
    and a2: "ascending (less_by tie_value) [11, 12]"
    by (simp_all add: ascending_def less_by_def tie_value_def)
  show ?thesis
    using merge_sorted_union [OF dlist_two_lists d swo_less_by a1 a2] dlist_two_lists a1 a2
    by simp
qed

section \<open>Which of two equivalent elements merge puts first\<close>

lemma filter_merge_lists_right:
  "distinct (xs @ ys) \<Longrightarrow> filter (\<lambda>z. z \<in> set ys) (merge_lists c xs ys) = ys"
proof (induction c xs ys rule: merge_lists.induct)
  case (1 c ys)
  then show ?case by (simp add: filter_id_conv)
next
  case (2 c x xs)
  then show ?case by (simp add: filter_empty_conv)
next
  case (3 c x xs y ys)
  have *: "filter (\<lambda>z. z = y \<or> z \<in> set ys) zs = filter (\<lambda>z. z \<in> set ys) zs" if "y \<notin> set zs" for zs
    using that by (intro filter_cong) auto
  show ?case using 3 by (auto simp: * set_merge_lists)
qed

text \<open>
  C1, as the code has it. \<open>merge\<close> advances in \<open>this\<close> only when
  \<open>compare(*this_iter, *other_iter)\<close> holds and otherwise takes the element of
  \<open>other\<close>. So each input keeps its own order, and an element \<open>x\<close> of \<open>this\<close>
  comes before an element \<open>y\<close> of \<open>other\<close> exactly when \<open>compare x y\<close>; when the
  two are equivalent, \<open>y\<close> comes first.
\<close>

theorem merge_ties_other_first:
  assumes "dlist h this xs" and "dlist h other ys"
    and "set (this # xs) \<inter> set (other # ys) = {}"
    and "strict_weak_order compare" and "ascending compare xs" and "ascending compare ys"
  shows "\<exists>h' zs. merge compare h this other = Some h' \<and> dlist h' this zs
    \<and> filter (\<lambda>z. z \<in> set xs) zs = xs \<and> filter (\<lambda>z. z \<in> set ys) zs = ys
    \<and> (\<forall>x \<in> set xs. \<forall>y \<in> set ys.
          (compare x y \<longrightarrow> precedes zs x y \<and> \<not> precedes zs y x)
        \<and> (\<not> compare x y \<longrightarrow> precedes zs y x \<and> \<not> precedes zs x y)
        \<and> (equivalent compare x y \<longrightarrow> precedes zs y x \<and> \<not> precedes zs x y))"
proof -
  from merge_correct [OF assms(1-3), of compare]
  obtain h' where h': "merge compare h this other = Some h'"
    "dlist h' this (merge_lists compare xs ys)"
    by blast
  let ?zs = "merge_lists compare xs ys"
  have dz: "distinct ?zs" using h'(2) by (simp add: dlist_def)
  have d: "distinct (xs @ ys)" using assms(1-3) by (auto simp: dlist_def)
  have ord: "if compare x y then precedes ?zs x y else precedes ?zs y x"
    if "x \<in> set xs" "y \<in> set ys" for x y
    using assms(4-6) d that by (rule merge_lists_order)
  have anti: "\<not> precedes ?zs v u" if "precedes ?zs u v" for u v
    using dz that by (rule precedes_antisym)
  have "\<forall>x \<in> set xs. \<forall>y \<in> set ys.
          (compare x y \<longrightarrow> precedes ?zs x y \<and> \<not> precedes ?zs y x)
        \<and> (\<not> compare x y \<longrightarrow> precedes ?zs y x \<and> \<not> precedes ?zs x y)
        \<and> (equivalent compare x y \<longrightarrow> precedes ?zs y x \<and> \<not> precedes ?zs x y)"
    using ord anti by (auto simp: equivalent_def split: if_splits)
  then show ?thesis
    using h' filter_merge_lists_left [OF d, of compare] filter_merge_lists_right [OF d, of compare]
    by blast
qed

theorem merge_ties_other_first_witness:
  "dlist two_lists 0 [1, 2] \<and> dlist two_lists 10 [11, 12]
    \<and> equivalent (less_by tie_value) 1 11 \<and> equivalent (less_by tie_value) 2 12
    \<and> (\<exists>h' zs. merge (less_by tie_value) two_lists 0 10 = Some h' \<and> dlist h' 0 zs
        \<and> precedes zs 11 1 \<and> \<not> precedes zs 1 11 \<and> precedes zs 12 2 \<and> precedes zs 1 12)"
proof -
  have d: "set (0 # [1, 2]) \<inter> set (10 # [11, 12 :: addr]) = {}" by simp
  have a1: "ascending (less_by tie_value) [1, 2]"
    and a2: "ascending (less_by tie_value) [11, 12]"
    by (simp_all add: ascending_def less_by_def tie_value_def)
  have e: "equivalent (less_by tie_value) 1 11" "equivalent (less_by tie_value) 2 12"
    "less_by tie_value 1 12"
    by (simp_all add: equivalent_def less_by_def tie_value_def)
  from merge_ties_other_first [OF dlist_two_lists d swo_less_by a1 a2]
  obtain h' zs where h': "merge (less_by tie_value) two_lists 0 10 = Some h'" "dlist h' 0 zs"
    and o: "\<forall>x \<in> set [1, 2]. \<forall>y \<in> set [11, 12].
          (less_by tie_value x y \<longrightarrow> precedes zs x y \<and> \<not> precedes zs y x)
        \<and> (\<not> less_by tie_value x y \<longrightarrow> precedes zs y x \<and> \<not> precedes zs x y)
        \<and> (equivalent (less_by tie_value) x y \<longrightarrow> precedes zs y x \<and> \<not> precedes zs x y)"
    by blast
  have "precedes zs 11 1 \<and> \<not> precedes zs 1 11 \<and> precedes zs 12 2 \<and> precedes zs 1 12"
    using o e by simp
  then show ?thesis using h' dlist_two_lists e by blast
qed

text \<open>
  C1 as the specification words it (the element of \<open>this\<close> stays ahead of an
  equivalent element of \<open>other\<close>) fails on the containers \<open>[1, 2]\<close> and \<open>[11, 12]\<close>
  with the values of \<open>tie_value\<close>: objects 1 and 11 are equivalent, 1 is in \<open>this\<close>,
  11 in \<open>other\<close>, and after \<open>merge\<close> the container holds 11 before 1.
\<close>

theorem merge_stable_counterexample:
  "dlist two_lists 0 [1, 2] \<and> dlist two_lists 10 [11, 12]
    \<and> strict_weak_order (less_by tie_value)
    \<and> ascending (less_by tie_value) [1, 2] \<and> ascending (less_by tie_value) [11, 12]
    \<and> equivalent (less_by tie_value) 1 11
    \<and> merge (less_by tie_value) two_lists 0 10 \<noteq> None
    \<and> dlist (the (merge (less_by tie_value) two_lists 0 10)) 0 [11, 1, 12, 2]
    \<and> \<not> precedes [11, 1, 12, 2] (1 :: addr) 11"
proof -
  have a: "ascending (less_by tie_value) [1, 2]" "ascending (less_by tie_value) [11, 12]"
    "equivalent (less_by tie_value) 1 11"
    by (simp_all add: ascending_def less_by_def tie_value_def equivalent_def)
  have d: "set (0 # [1, 2]) \<inter> set (10 # [11, 12 :: addr]) = {}" by simp
  from merge_correct [OF dlist_two_lists d, of "less_by tie_value"]
  obtain h' where h': "merge (less_by tie_value) two_lists 0 10 = Some h'"
    "dlist h' 0 (merge_lists (less_by tie_value) [1, 2] [11, 12])"
    by blast
  have "merge_lists (less_by tie_value) [1, 2] [11, 12] = [11, 1, 12, 2]"
    by (simp add: less_by_def tie_value_def)
  with h' have "merge (less_by tie_value) two_lists 0 10 \<noteq> None"
    "dlist (the (merge (less_by tie_value) two_lists 0 10)) 0 [11, 1, 12, 2]"
    by simp_all
  moreover have "\<not> precedes [11, 1, 12, 2] (1 :: addr) 11" by (simp add: precedes_def)
  ultimately show ?thesis using dlist_two_lists swo_less_by a by blast
qed

section \<open>Moving a container\<close>

lemma hd_snoc_eq_iff: "distinct (l # ys) \<Longrightarrow> hd (ys @ [l]) = l \<longleftrightarrow> ys = []"
  by (cases ys) auto

lemma last_Cons_eq_iff: "distinct (l # ys) \<Longrightarrow> last (l # ys) = l \<longleftrightarrow> ys = []"
  by (cases ys rule: rev_cases) auto

lemma node_move_next:
  assumes "in_list h other" and "this \<noteq> other" and "next (h other) \<noteq> other"
    and "previous (h other) \<noteq> other"
  shows "next (node_move h this other c) =
    (if c = other then other else if c = previous (h other) then this
     else if c = this then next (h other) else next (h c))"
  using assms by (simp add: node_move_def node_clear_def Let_def)

lemma node_move_previous:
  assumes "in_list h other" and "this \<noteq> other" and "next (h other) \<noteq> other"
    and "previous (h other) \<noteq> other"
  shows "previous (node_move h this other c) =
    (if c = other then other else if c = next (h other) then this
     else if c = this then previous (h other) else previous (h c))"
  using assms by (simp add: node_move_def node_clear_def Let_def)

lemma node_move_not_in_list:
  assumes "\<not> in_list h other"
  shows "node_move h this other = node_clear h this"
  using assms by (simp add: node_move_def node_clear_def)

lemma node_move_assign_unlink:
  "node_move_assign h this other =
     node_move (set_next (set_previous h (next (h this)) (previous (h this)))
       (previous (h this)) (next (h this))) this other"
  by (simp add: node_move_assign_def Let_def)

lemma list_move_assign_correct:
  assumes a: "dlist h this xs" and b: "dlist h other ys"
    and disj: "set (this # xs) \<inter> set (other # ys) = {}"
  shows "dlist (list_move_assign h this other) this ys"
    and "dlist (list_move_assign h this other) other []"
    and "\<And>c. c \<notin> set (this # xs) \<Longrightarrow> c \<notin> set (other # ys)
          \<Longrightarrow> list_move_assign h this other c = h c"
proof -
  define fx lx fy ly where "fx = hd (xs @ [this])" and "lx = last (this # xs)"
    and "fy = hd (ys @ [other])" and "ly = last (other # ys)"
  note defs = this
  define h2 where "h2 = set_next (set_previous h fx lx) lx fx"
  define h' where "h' = list_move_assign h this other"
  have da: "distinct (this # xs)" using a by (simp add: dlist_def)
  have db: "distinct (other # ys)" using b by (simp add: dlist_def)
  have nt: "next (h this) = fx" and pt: "previous (h this) = lx"
    and no: "next (h other) = fy" and po: "previous (h other) = ly"
    unfolding defs using a b by (simp_all add: dlist_header_next dlist_header_previous)
  have h': "h' = node_move h2 this other"
    by (simp add: h'_def h2_def list_move_assign_def node_move_assign_unlink nt pt)
  have fx_in: "fx \<in> set (xs @ [this])" and fy_in: "fy \<in> set (ys @ [other])"
    unfolding defs by (rule hd_snoc_in)+
  have lx_in: "lx \<in> set (this # xs)" and ly_in: "ly \<in> set (other # ys)"
    unfolding defs by (rule last_Cons_in)+
  have o_fx: "other \<noteq> fx" and o_lx: "other \<noteq> lx" and o_t: "other \<noteq> this"
    and t_fy: "this \<noteq> fy" and t_ly: "this \<noteq> ly" and fy_lx: "fy \<noteq> lx" and ly_fx: "ly \<noteq> fx"
    using disj fx_in fy_in lx_in ly_in by auto
  have fyo: "fy = other \<longleftrightarrow> ys = []" and lyo: "ly = other \<longleftrightarrow> ys = []"
    unfolding defs using db by (rule hd_snoc_eq_iff, rule last_Cons_eq_iff)
  have n2: "next (h2 c) = (if c = lx then fx else next (h c))"
    and p2: "previous (h2 c) = (if c = fx then lx else previous (h c))" for c
    by (simp_all add: h2_def)
  have no2: "next (h2 other) = fy" and po2: "previous (h2 other) = ly"
    using o_fx o_lx by (simp_all add: n2 p2 no po)
  have il: "in_list h2 other \<longleftrightarrow> ys \<noteq> []" by (simp add: in_list_def no2 fyo)
  have goal: "dlist h' this ys \<and> dlist h' other []
      \<and> (\<forall>c. c \<notin> set (this # xs) \<longrightarrow> c \<notin> set (other # ys) \<longrightarrow> h' c = h c)"
  proof (cases "ys = []")
    case True
    then have h'': "h' = node_clear h2 this" using il h' by (simp add: node_move_not_in_list)
    have "self_linked h' this" by (simp add: h'' node_clear_def self_linked_def)
    moreover have "self_linked h' other"
      using True o_t fyo lyo no2 po2 by (simp add: h'' node_clear_def self_linked_def)
    moreover have "h' c = h c" if "c \<notin> set (this # xs)" for c
    proof (rule node_eqI)
      have "c \<noteq> this" "c \<noteq> fx" "c \<noteq> lx" using that fx_in lx_in by auto
      then show "next (h' c) = next (h c)" "previous (h' c) = previous (h c)"
        by (simp_all add: h'' node_clear_def n2 p2)
    qed
    ultimately show ?thesis using True by (simp add: dlist_Nil_iff)
  next
    case False
    then have fy: "fy = hd ys" and ly: "ly = last ys" by (simp_all add: defs)
    have fyo': "fy \<noteq> other" and lyo': "ly \<noteq> other" using False fyo lyo by simp_all
    have il': "in_list h2 other" using il False by simp
    note nf = node_move_next [of h2 other this, unfolded no2 po2, OF il' o_t [symmetric] fyo' lyo',
        folded h']
    note pf = node_move_previous [of h2 other this, unfolded no2 po2, OF il' o_t [symmetric] fyo' lyo',
        folded h']
    from b have sb: "successively (link h) ([other] @ ys @ [other])" by (simp add: dlist_def)
    note sy = successively_split(1) [OF successively_split(2) [OF sb]]
    have s: "successively (link h') ys"
    proof (rule seg_frame' [OF sy, where e = ly and s = fy])
      show "distinct ys" using db by simp
      show "next (h' c) = next (h c)" if "c \<in> set ys" "c \<noteq> ly" for c
        using that disj db lx_in by (auto simp: nf n2)
      show "previous (h' c) = previous (h c)" if "c \<in> set ys" "c \<noteq> fy" for c
        using that disj db fx_in by (auto simp: pf p2)
    qed (simp_all add: fy ly)
    have j1: "link h' (last [this]) (hd ys)"
      using o_t t_ly t_fy fyo' by (simp add: link_def nf pf flip: fy)
    have j2: "link h' (last ys) (hd [this])"
      using o_t t_ly t_fy lyo' by (simp add: link_def nf pf flip: ly)
    have "successively (link h') ([this] @ ys @ [this])"
      by (rule successively_join2 [OF _ s _ j1 j2 False]) simp_all
    moreover have "distinct (this # ys)" using db disj by auto
    ultimately have 1: "dlist h' this ys" by (simp add: dlist_def)
    have 2: "dlist h' other []" by (simp add: dlist_Nil_iff self_linked_def nf pf)
    have "h' c = h c" if "c \<notin> set (this # xs)" "c \<notin> set (other # ys)" for c
    proof (rule node_eqI)
      have "c \<noteq> this" "c \<noteq> other" "c \<noteq> fx" "c \<noteq> lx" "c \<noteq> fy" "c \<noteq> ly"
        using that fx_in fy_in lx_in ly_in by auto
      then show "next (h' c) = next (h c)" "previous (h' c) = previous (h c)"
        by (simp_all add: nf pf n2 p2)
    qed
    with 1 2 show ?thesis by simp
  qed
  show "dlist (list_move_assign h this other) this ys"
    and "dlist (list_move_assign h this other) other []"
    and "\<And>c. c \<notin> set (this # xs) \<Longrightarrow> c \<notin> set (other # ys)
          \<Longrightarrow> list_move_assign h this other c = h c"
    using goal by (simp_all add: h'_def)
qed

lemma list_move_construct_correct:
  assumes b: "dlist h other ys" and t: "this \<notin> set (other # ys)"
  shows "dlist (list_move_construct h this other) this ys"
    and "dlist (list_move_construct h this other) other []"
proof -
  let ?h0 = "node_construct h this"
  have a0: "dlist ?h0 this []" by (simp add: dlist_Nil_iff self_linked_def node_construct_def)
  have "\<forall>a \<in> set (other # ys). ?h0 a = h a" using t by (auto simp: node_construct_def)
  with b have b0: "dlist ?h0 other ys" by (rule dlist_frame)
  have d: "set (this # []) \<inter> set (other # ys) = {}" using t by simp
  show "dlist (list_move_construct h this other) this ys"
    and "dlist (list_move_construct h this other) other []"
    unfolding list_move_construct_def
    by (rule list_move_assign_correct [OF a0 b0 d])+
qed

text \<open>
  C8. Move-assigning the container \<open>this\<close> from a different container \<open>other\<close>, and
  move-constructing a new container \<open>this\<close> from \<open>other\<close>, leave \<open>this\<close> holding
  exactly the former elements of \<open>other\<close> in the same order, linked in a circle through
  the header of \<open>this\<close>, and leave \<open>other\<close> empty.
\<close>

theorem move_transfers_elements:
  "(dlist h this xs \<and> dlist h other ys \<and> set (this # xs) \<inter> set (other # ys) = {} \<longrightarrow>
      dlist (list_move_assign h this other) this ys
      \<and> dlist (list_move_assign h this other) other []
      \<and> list_empty (list_move_assign h this other) other)
   \<and> (dlist h other ys \<and> this \<notin> set (other # ys) \<longrightarrow>
      dlist (list_move_construct h this other) this ys
      \<and> dlist (list_move_construct h this other) other []
      \<and> list_empty (list_move_construct h this other) other)"
proof -
  have e: "list_empty g l" if "dlist g l []" for g l
    using that by (simp add: dlist_Nil_iff self_linked_def list_empty_def in_list_def)
  show ?thesis
    using list_move_assign_correct(1,2) [of h this xs other ys]
      list_move_construct_correct [of h other ys this] e
    by blast
qed

theorem move_transfers_elements_witness:
  "dlist two_lists 0 [1, 2] \<and> dlist two_lists 10 [11, 12]
    \<and> dlist (list_move_assign two_lists 0 10) 0 [11, 12]
    \<and> list_empty (list_move_assign two_lists 0 10) 10
    \<and> dlist (list_move_construct two_lists 20 10) 20 [11, 12]
    \<and> list_empty (list_move_construct two_lists 20 10) 10"
proof -
  have d: "set (0 # [1, 2]) \<inter> set (10 # [11, 12 :: addr]) = {}"
    and t: "(20 :: addr) \<notin> set (10 # [11, 12])" by simp_all
  show ?thesis
    using move_transfers_elements [of two_lists 0 "[1, 2]" 10 "[11, 12]"]
      move_transfers_elements [of two_lists 20 "[]" 10 "[11, 12]"]
      dlist_two_lists d t by simp
qed

section \<open>unique\<close>

lemma set_unique_list: "set (unique_list p xs) \<subseteq> set xs"
  by (induction p xs rule: unique_list.induct) auto

lemma unique_list_Cons: "\<exists>ys. unique_list p (x # xs) = x # ys"
proof (induction xs arbitrary: x)
  case Nil
  show ?case by simp
next
  case (Cons y ys)
  show ?case using Cons [of x] by simp
qed

lemma unique_loop_correct:
  assumes "dlist h l (ps @ x # rest)"
  shows "\<exists>h'. unique_loop p l h x = Some h' \<and> dlist h' l (ps @ unique_list p (x # rest))
    \<and> (\<forall>c. c \<notin> set (l # ps @ x # rest) \<longrightarrow> h' c = h c)
    \<and> (\<forall>c \<in> set rest. c \<notin> set (unique_list p (x # rest)) \<longrightarrow> self_linked h' c)"
  using assms
proof (induction rest arbitrary: h x ps)
  case Nil
  have "previous (h l) = x" using Nil dlist_header_previous [of h l "ps @ [x]"] by simp
  then show ?case using Nil by (subst unique_loop.simps) (simp add: list_end_def)
next
  case (Cons y zs)
  have dist: "distinct (l # ps @ x # y # zs)" using Cons.prems by (simp add: dlist_def)
  have "previous (h l) = last (y # zs)"
    using Cons.prems dlist_header_previous [of h l "ps @ x # y # zs"] by simp
  moreover have "last (y # zs) \<in> set (y # zs)" by (rule last_Cons_in)
  ultimately have ne: "x \<noteq> previous (h (list_end l))" using dist by (auto simp: list_end_def)
  have nx: "next (h x) = y" using Cons.prems dlist_next [of h l ps x "y # zs"] by simp
  show ?case
  proof (cases "p x y")
    case True
    let ?h1 = "list_remove h y"
    have d: "dlist h l ((ps @ [x]) @ y # zs)" using Cons.prems by simp
    have d1: "dlist ?h1 l (ps @ x # zs)"
      using dlist_remove [OF d] by (simp add: list_remove_def)
    have sl: "self_linked ?h1 y" by (simp add: list_remove_def node_remove_self_linked)
    have fr: "?h1 c = h c" if "c \<notin> set (l # ps @ x # y # zs)" for c
      using dlist_remove_frame [OF d, of c] that by (simp add: list_remove_def)
    from Cons.IH [OF d1]
    obtain h' where h': "unique_loop p l ?h1 x = Some h'"
      "dlist h' l (ps @ unique_list p (x # zs))"
      "\<forall>c. c \<notin> set (l # ps @ x # zs) \<longrightarrow> h' c = ?h1 c"
      "\<forall>c \<in> set zs. c \<notin> set (unique_list p (x # zs)) \<longrightarrow> self_linked h' c"
      by blast
    have "h' y = ?h1 y" using h'(3) dist by auto
    then have sly: "self_linked h' y" using sl by (simp add: self_linked_def)
    have "unique_loop p l h x = Some h'"
      using ne nx True h'(1) by (subst unique_loop.simps) simp
    moreover have "\<forall>c. c \<notin> set (l # ps @ x # y # zs) \<longrightarrow> h' c = h c"
      using h'(3) fr by auto
    moreover have "\<forall>c \<in> set (y # zs). c \<notin> set (unique_list p (x # y # zs)) \<longrightarrow> self_linked h' c"
      using h'(4) sly True by simp
    ultimately show ?thesis using h'(2) True by simp
  next
    case False
    have d: "dlist h l ((ps @ [x]) @ y # zs)" using Cons.prems by simp
    from Cons.IH [OF d]
    obtain h' where h': "unique_loop p l h y = Some h'"
      "dlist h' l ((ps @ [x]) @ unique_list p (y # zs))"
      "\<forall>c. c \<notin> set (l # (ps @ [x]) @ y # zs) \<longrightarrow> h' c = h c"
      "\<forall>c \<in> set zs. c \<notin> set (unique_list p (y # zs)) \<longrightarrow> self_linked h' c"
      by blast
    have "unique_loop p l h x = Some h'"
      using ne nx False h'(1) by (subst unique_loop.simps) simp
    moreover have "\<forall>c \<in> set (y # zs). c \<notin> set (unique_list p (x # y # zs)) \<longrightarrow> self_linked h' c"
      using h'(4) False unique_list_Cons [of p y zs] by auto
    ultimately show ?thesis using h'(2,3) False by simp
  qed
qed

lemma unique_correct:
  assumes "dlist h l xs"
  shows "\<exists>h'. unique p h l = Some h' \<and> dlist h' l (unique_list p xs)
    \<and> (\<forall>c. c \<notin> set (l # xs) \<longrightarrow> h' c = h c)
    \<and> (\<forall>c \<in> set xs. c \<notin> set (unique_list p xs) \<longrightarrow> self_linked h' c)"
proof (cases xs)
  case Nil
  then have "list_empty h l"
    using assms by (simp add: dlist_Nil_iff self_linked_def list_empty_def in_list_def)
  then show ?thesis using Nil assms by (simp add: unique_def)
next
  case (Cons x rest)
  have dist: "distinct (l # x # rest)" using assms Cons by (simp add: dlist_def)
  have nl: "next (h l) = x" using assms Cons dlist_header_next [of h l xs] by simp
  then have ne: "\<not> list_empty h l" using dist by (simp add: list_empty_def in_list_def)
  have d: "dlist h l ([] @ x # rest)" using assms Cons by simp
  have "\<forall>c \<in> set (x # rest). c \<notin> set (unique_list p (x # rest)) \<longrightarrow> c \<in> set rest"
    using unique_list_Cons [of p x rest] by auto
  then show ?thesis
    using unique_loop_correct [OF d, of p] ne nl Cons
    by (simp add: unique_def list_begin_def) blast
qed

lemma unique_list_run_heads_aux:
  assumes "equivalence p" and "p x x'"
  shows "unique_list p (x # ys) = x # keep_after p x' ys"
  using assms(2)
proof (induction ys arbitrary: x x')
  case Nil
  show ?case by simp
next
  case (Cons y zs)
  have refl: "p y y" using assms(1) by (simp add: equivalence_def)
  have iff: "p x y \<longleftrightarrow> p x' y"
    using assms(1) Cons.prems unfolding equivalence_def by blast
  show ?case
  proof (cases "p x y")
    case True
    then show ?thesis using iff Cons.IH [of x y] by simp
  next
    case False
    then show ?thesis using iff Cons.IH [of y y] refl by simp
  qed
qed

lemma unique_list_run_heads:
  assumes "equivalence p"
  shows "unique_list p xs = run_heads p xs"
proof (cases xs)
  case Nil
  then show ?thesis by simp
next
  case (Cons x ys)
  have "p x x" using assms by (simp add: equivalence_def)
  then show ?thesis using Cons unique_list_run_heads_aux [OF assms] by simp
qed

lemma equivalence_equal_by: "equivalence (equal_by val)"
  by (simp add: equivalence_def equal_by_def)

lemma dlist_unique_store: "dlist unique_store 0 [1, 2, 3, 4, 5, 6]"
proof -
  have s: "\<forall>v \<in> set [1, 2, 3, 4, 5, 6]. self_linked (list_construct fresh 0) v"
    by (simp add: self_linked_def list_construct_def fresh_def)
  have d: "distinct [1, 2, 3, 4, 5, 6 :: addr]"
    and i: "set [1, 2, 3, 4, 5, 6] \<inter> set (0 # []) = ({} :: addr set)" by simp_all
  from push_back_all_correct [OF dlist_list_construct s d i]
  show ?thesis by (auto simp: unique_store_def)
qed

text \<open>
  C5. For an equivalence \<open>pred\<close>, \<open>unique\<close> returns and leaves in the container, in
  their order, exactly the elements that start a maximal run of consecutive equivalent
  elements; every other element of the container has been unlinked and is self-linked,
  and no link field outside the container is written.
\<close>

theorem unique_keeps_run_heads:
  assumes "dlist h this xs" and "equivalence pred"
  shows "\<exists>h'. unique pred h this = Some h' \<and> dlist h' this (run_heads pred xs)
    \<and> (\<forall>c \<in> set xs. c \<notin> set (run_heads pred xs) \<longrightarrow> self_linked h' c)
    \<and> (\<forall>c. c \<notin> set (this # xs) \<longrightarrow> h' c = h c)"
  using unique_correct [OF assms(1), of pred] unique_list_run_heads [OF assms(2), of xs]
  by auto

theorem unique_keeps_run_heads_witness:
  "dlist unique_store 0 [1, 2, 3, 4, 5, 6]
    \<and> map unique_value [1, 2, 3, 4, 5, 6] = [1, 1, 2, 2, 2, 3]
    \<and> (\<exists>h'. unique (equal_by unique_value) unique_store 0 = Some h' \<and> dlist h' 0 [1, 3, 6]
         \<and> map unique_value [1, 3, 6] = [1, 2, 3])"
proof -
  have r: "run_heads (equal_by unique_value) [1, 2, 3, 4, 5, 6] = [1, 3, 6]"
    by (simp add: equal_by_def unique_value_def)
  have v: "map unique_value [1, 2, 3, 4, 5, 6] = [1, 1, 2, 2, 2, 3]"
    "map unique_value [1, 3, 6] = [1, 2, 3]"
    by (simp_all add: unique_value_def)
  from unique_keeps_run_heads [OF dlist_unique_store equivalence_equal_by, of unique_value]
  obtain h' where "unique (equal_by unique_value) unique_store 0 = Some h'"
    "dlist h' 0 (run_heads (equal_by unique_value) [1, 2, 3, 4, 5, 6])"
    by blast
  then have "\<exists>h'. unique (equal_by unique_value) unique_store 0 = Some h' \<and> dlist h' 0 [1, 3, 6]
         \<and> map unique_value [1, 3, 6] = [1, 2, 3]"
    using v(2) by (simp only: r) blast
  then show ?thesis using dlist_unique_store v(1) by blast
qed

section \<open>sort\<close>

lemma hd_append_Cons: "hd (ws @ i # rest) = hd (ws @ [i])"
  by (cases ws) simp_all

lemma rev_takeWhile_all: "\<forall>w \<in> set ws. P w \<Longrightarrow> rev (takeWhile P (rev ws)) = ws"
proof -
  assume "\<forall>w \<in> set ws. P w"
  then have "takeWhile P (rev ws) = rev ws" by simp
  then show ?thesis by (simp only: rev_rev_ident)
qed

lemma rev_takeWhile_stop:
  assumes "\<forall>w \<in> set ws. P w" and "\<not> P u"
  shows "rev (takeWhile P (rev ws @ u # us)) = ws"
proof -
  have "takeWhile P (rev ws @ u # us) = rev ws @ takeWhile P (u # us)"
    using assms(1) by (intro takeWhile_append2) simp
  also have "takeWhile P (u # us) = []" using assms(2) by simp
  finally show ?thesis by simp
qed

lemma sort_inner_correct:
  assumes "dlist h l (us @ ws @ i # rest)" and "\<forall>w \<in> set ws. c i w"
  shows "sort_inner c l h i (hd (ws @ [i]))
    = Some (hd (rev (takeWhile (c i) (rev (us @ ws))) @ [i]))"
  using assms
proof (induction us arbitrary: ws rule: rev_induct)
  case Nil
  have "list_begin h l = hd (ws @ [i])"
    using Nil.prems(1) dlist_header_next [of h l "ws @ i # rest"]
      hd_append_Cons [of ws i "rest @ [l]"]
    by (simp add: list_begin_def)
  moreover have "rev (takeWhile (c i) (rev ws)) = ws"
    using Nil.prems(2) by (rule rev_takeWhile_all)
  ultimately show ?case by (subst sort_inner.simps) (simp del: takeWhile_eq_all_conv)
next
  case (snoc u us)
  let ?j = "hd (ws @ [i])"
  have dist: "distinct (l # us @ u # ws @ i # rest)" using snoc.prems(1) by (simp add: dlist_def)
  have "list_begin h l = hd (us @ [u])"
    using snoc.prems(1) dlist_header_next [of h l "(us @ [u]) @ ws @ i # rest"]
    by (simp add: list_begin_def hd_append)
  moreover have "hd (us @ [u]) \<in> set (us @ [u])" by (rule hd_snoc_in)
  moreover have j_in: "?j \<in> set (ws @ [i])" by (rule hd_snoc_in)
  ultimately have ne: "?j \<noteq> list_begin h l" using dist by auto
  have "previous (h (hd ((ws @ i # rest) @ [l]))) = last (l # us @ [u])"
    using snoc.prems(1) by (intro dlist_previous_pos) simp
  then have pj: "previous (h ?j) = u" using hd_append_Cons [of ws i "rest @ [l]"] by simp
  show ?case
  proof (cases "c i u")
    case True
    have d: "dlist h l (us @ (u # ws) @ i # rest)" using snoc.prems(1) by simp
    have a: "\<forall>w \<in> set (u # ws). c i w" using True snoc.prems(2) by simp
    show ?thesis
      using snoc.IH [OF d a] ne pj True by (subst sort_inner.simps) simp
  next
    case False
    have "rev (takeWhile (c i) (rev ws @ u # rev us)) = ws"
      using snoc.prems(2) False by (rule rev_takeWhile_stop)
    then show ?thesis using ne pj False by (subst sort_inner.simps) simp
  qed
qed

lemma sort_loop_correct:
  assumes "dlist h l (ps @ rest)"
  shows "\<exists>h'. sort_loop c l h (hd (rest @ [l])) = Some h'
    \<and> dlist h' l (insertion_sort_from c ps rest)
    \<and> (\<forall>a. a \<notin> set (l # ps @ rest) \<longrightarrow> h' a = h a)"
  using assms
proof (induction rest arbitrary: h ps)
  case Nil
  then show ?case by (subst sort_loop.simps) (simp add: list_end_def)
next
  case (Cons i rest)
  define ps1 ps2 where "ps1 = rev (dropWhile (c i) (rev ps))"
    and "ps2 = rev (takeWhile (c i) (rev ps))"
  have ps: "ps = ps1 @ ps2"
    unfolding ps1_def ps2_def rev_append [symmetric] takeWhile_dropWhile_id by simp
  have ins: "insert_sorted c i ps = ps1 @ i # ps2"
    by (simp add: insert_sorted_def ps1_def ps2_def)
  have dist: "distinct (l # ps1 @ ps2 @ i # rest)" using Cons.prems ps by (simp add: dlist_def)
  have il: "i \<noteq> list_end l" using dist by (simp add: list_end_def)
  have d0: "dlist h l (ps @ [] @ i # rest)" using Cons.prems by simp
  have inner: "sort_inner c l h i i = Some (hd (ps2 @ [i]))"
    using sort_inner_correct [OF d0, of c] by (simp add: ps2_def)
  have ni: "next (h i) = hd (rest @ [l])" using Cons.prems by (rule dlist_next)
  let ?h = "if i \<noteq> hd (ps2 @ [i]) then list_insert (list_remove h i) (hd (ps2 @ [i])) i else h"
  have step: "dlist ?h l ((ps1 @ i # ps2) @ rest)
      \<and> (\<forall>a. a \<notin> set (l # ps @ i # rest) \<longrightarrow> ?h a = h a)"
  proof (cases "ps2 = []")
    case True
    then show ?thesis using Cons.prems ps by simp
  next
    case False
    then have "hd (ps2 @ [i]) \<in> set ps2" by simp
    then have ne: "i \<noteq> hd (ps2 @ [i])" using dist by auto
    let ?h1 = "node_remove h i"
    have d: "dlist h l ((ps1 @ ps2) @ i # rest)" using Cons.prems ps by simp
    have d1: "dlist ?h1 l (ps1 @ (ps2 @ rest))" using dlist_remove [OF d] by simp
    have fr1: "?h1 a = h a" if "a \<notin> set (l # (ps1 @ ps2) @ i # rest)" for a
      using d that by (rule dlist_remove_frame)
    have i_out: "i \<notin> set (l # ps1 @ (ps2 @ rest))" using dist by auto
    have pos: "hd ((ps2 @ rest) @ [l]) = hd (ps2 @ [i])" using False by simp
    have d2: "dlist (node_insert_before ?h1 (hd (ps2 @ [i])) i) l (ps1 @ i # (ps2 @ rest))"
      using dlist_insert_before [OF d1 i_out] by (simp only: pos)
    have fr2: "node_insert_before ?h1 (hd (ps2 @ [i])) i a = ?h1 a"
      if "a \<notin> set (l # ps1 @ (ps2 @ rest))" "a \<noteq> i" for a
      using dlist_insert_before_frame [OF d1 that] by (simp only: pos)
    have "\<forall>a. a \<notin> set (l # ps @ i # rest) \<longrightarrow> node_insert_before ?h1 (hd (ps2 @ [i])) i a = h a"
      using fr1 fr2 ps by auto
    then show ?thesis using ne d2 by (simp add: list_insert_def list_remove_def)
  qed
  then have d': "dlist ?h l (insert_sorted c i ps @ rest)" by (simp add: ins)
  from Cons.IH [OF d']
  obtain h' where h': "sort_loop c l ?h (hd (rest @ [l])) = Some h'"
    "dlist h' l (insertion_sort_from c (insert_sorted c i ps) rest)"
    "\<forall>a. a \<notin> set (l # insert_sorted c i ps @ rest) \<longrightarrow> h' a = ?h a"
    by blast
  have "sort_loop c l h i = Some h'"
    using il inner ni h'(1) by (subst sort_loop.simps) simp
  moreover have "\<forall>a. a \<notin> set (l # ps @ i # rest) \<longrightarrow> h' a = h a"
  proof (intro allI impI)
    fix a assume a: "a \<notin> set (l # ps @ i # rest)"
    moreover have "set (insert_sorted c i ps) = insert i (set ps1 \<union> set ps2)"
      by (simp add: ins)
    moreover have "set ps = set ps1 \<union> set ps2" by (subst ps) simp
    ultimately have "a \<notin> set (l # insert_sorted c i ps @ rest)" by simp
    then have "h' a = ?h a" using h'(3) by blast
    then show "h' a = h a" using step a by simp
  qed
  ultimately show ?case using h'(2) by simp
qed

lemma list_sort_correct:
  assumes "dlist h l xs"
  shows "\<exists>h'. list_sort c h l = Some h' \<and> dlist h' l (insertion_sort c xs)
    \<and> (\<forall>a. a \<notin> set (l # xs) \<longrightarrow> h' a = h a)"
proof -
  have d: "dlist h l ([] @ xs)" using assms by simp
  have "list_begin h l = hd (xs @ [l])"
    using assms by (simp add: list_begin_def dlist_header_next)
  then show ?thesis
    using sort_loop_correct [OF d, of c] by (simp add: list_sort_def insertion_sort_def)
qed

lemma insert_sorted_split:
  "\<exists>ps1 ps2. ps = ps1 @ ps2 \<and> insert_sorted c x ps = ps1 @ x # ps2
    \<and> (\<forall>b \<in> set ps2. c x b) \<and> (ps1 \<noteq> [] \<longrightarrow> \<not> c x (last ps1))"
proof -
  let ?T = "takeWhile (c x) (rev ps)" and ?D = "dropWhile (c x) (rev ps)"
  have "rev ps = ?T @ ?D" by simp
  then have "ps = rev ?D @ rev ?T" by (metis rev_append rev_rev_ident)
  moreover have "\<forall>b \<in> set (rev ?T). c x b" by (auto dest: set_takeWhileD)
  moreover have "rev ?D \<noteq> [] \<longrightarrow> \<not> c x (last (rev ?D))"
    using hd_dropWhile [of "c x" "rev ps"] by (auto simp: last_rev)
  ultimately show ?thesis unfolding insert_sorted_def by blast
qed

lemma mset_insert_sorted: "mset (insert_sorted c x ps) = add_mset x (mset ps)"
  using insert_sorted_split [of ps c x] by auto

lemma mset_insertion_sort_from: "mset (insertion_sort_from c ps xs) = mset ps + mset xs"
  by (induction xs arbitrary: ps) (simp_all add: mset_insert_sorted)

lemma ascending_append:
  "ascending c (xs @ ys) = (ascending c xs \<and> ascending c ys \<and> (\<forall>a \<in> set xs. \<forall>b \<in> set ys. \<not> c b a))"
  by (simp add: ascending_def sorted_wrt_append)

lemma ascending_insert_sorted:
  assumes swo: "strict_weak_order c" and asc: "ascending c ps"
  shows "ascending c (insert_sorted c x ps)"
proof -
  from insert_sorted_split [of ps c x]
  obtain ps1 ps2 where s: "ps = ps1 @ ps2" "insert_sorted c x ps = ps1 @ x # ps2"
    "\<forall>b \<in> set ps2. c x b" "ps1 \<noteq> [] \<longrightarrow> \<not> c x (last ps1)"
    by blast
  have a1: "ascending c ps1" and a2: "ascending c ps2"
    and a12: "\<forall>a \<in> set ps1. \<forall>b \<in> set ps2. \<not> c b a"
    using asc s(1) by (simp_all add: ascending_append)
  have after: "\<not> c b x" if "b \<in> set ps2" for b
    using that s(3) swo_asym [OF swo] by blast
  have before: "\<not> c x a" if "a \<in> set ps1" for a
  proof
    assume cxa: "c x a"
    from that have ne: "ps1 \<noteq> []" by auto
    then have nl: "\<not> c x (last ps1)" using s(4) by simp
    have "c x (last ps1) \<or> c (last ps1) a" using swo cxa by (rule swo_negtrans)
    with nl have la: "c (last ps1) a" by simp
    from ne obtain qs where qs: "ps1 = qs @ [last ps1]" by (metis append_butlast_last_id)
    have "a \<in> set qs \<or> a = last ps1" using that by (subst (asm) qs) auto
    then show False
    proof
      assume "a \<in> set qs"
      moreover have "ascending c (qs @ [last ps1])" using a1 qs by simp
      ultimately show False using la by (simp add: ascending_append)
    next
      assume "a = last ps1"
      with la show False using swo_irrefl [OF swo] by blast
    qed
  qed
  have "ascending c (ps1 @ [x] @ ps2)"
    unfolding ascending_append using a1 a2 a12 after before
    by (auto simp: ascending_def)
  then show ?thesis by (simp add: s(2))
qed

lemma ascending_insertion_sort_from:
  assumes "strict_weak_order c" and "ascending c ps"
  shows "ascending c (insertion_sort_from c ps xs)"
  using assms(2)
proof (induction xs arbitrary: ps)
  case Nil
  then show ?case by simp
next
  case (Cons x xs)
  then show ?case using ascending_insert_sorted [OF assms(1)] by simp
qed

lemma equivalent_sym: "equivalent c x y \<Longrightarrow> equivalent c y x"
  by (simp add: equivalent_def)

lemma equivalent_trans:
  "strict_weak_order c \<Longrightarrow> equivalent c x y \<Longrightarrow> equivalent c y z \<Longrightarrow> equivalent c x z"
  unfolding strict_weak_order_def equivalent_def by blast

lemma stable_insert_sorted:
  assumes swo: "strict_weak_order c"
  shows "filter (equivalent c k) (insert_sorted c x ps) = filter (equivalent c k) (ps @ [x])"
proof -
  from insert_sorted_split [of ps c x]
  obtain ps1 ps2 where s: "ps = ps1 @ ps2" "insert_sorted c x ps = ps1 @ x # ps2"
    "\<forall>b \<in> set ps2. c x b"
    by blast
  show ?thesis
  proof (cases "equivalent c k x")
    case True
    have "\<not> equivalent c k b" if "b \<in> set ps2" for b
    proof
      assume "equivalent c k b"
      then have "equivalent c x b"
        using equivalent_trans [OF swo equivalent_sym [OF True]] by blast
      moreover have "c x b" using that s(3) by blast
      ultimately show False by (simp add: equivalent_def)
    qed
    then have "filter (equivalent c k) ps2 = []" by (simp add: filter_empty_conv)
    then show ?thesis unfolding s(2) using True by (simp add: s(1))
  next
    case False
    then show ?thesis unfolding s(2) by (simp add: s(1))
  qed
qed

lemma stable_insertion_sort_from:
  assumes "strict_weak_order c"
  shows "filter (equivalent c k) (insertion_sort_from c ps xs) = filter (equivalent c k) (ps @ xs)"
proof (induction xs arbitrary: ps)
  case Nil
  show ?case by simp
next
  case (Cons x xs)
  have "filter (equivalent c k) (insertion_sort_from c (insert_sorted c x ps) xs)
      = filter (equivalent c k) (insert_sorted c x ps @ xs)" by (rule Cons.IH)
  also have "\<dots> = filter (equivalent c k) ((ps @ [x]) @ xs)"
    using stable_insert_sorted [OF assms, of k x ps] by simp
  finally show ?case by simp
qed

lemma precedes_filter:
  assumes "P x" and "P y"
  shows "precedes (filter P zs) x y = precedes zs x y"
  using assms by (induction zs) (auto simp: precedes_Cons)

lemma dlist_sort_store: "dlist sort_store 0 [1, 2, 3, 4, 5]"
proof -
  have s: "\<forall>v \<in> set [1, 2, 3, 4, 5]. self_linked (list_construct fresh 0) v"
    by (simp add: self_linked_def list_construct_def fresh_def)
  have d: "distinct [1, 2, 3, 4, 5 :: addr]"
    and i: "set [1, 2, 3, 4, 5] \<inter> set (0 # []) = ({} :: addr set)" by simp_all
  from push_back_all_correct [OF dlist_list_construct s d i]
  show ?thesis by (auto simp: sort_store_def)
qed

text \<open>
  C4. For a strict weak order, \<open>sort\<close> returns and leaves in the container the
  insertion sort of its elements: a permutation of them, ascending under the comparator,
  in which elements that are equivalent under the comparator keep the order they had.
\<close>

theorem sort_sorted_stable:
  assumes "dlist h this xs" and "strict_weak_order compare"
  shows "\<exists>h'. list_sort compare h this = Some h'
    \<and> dlist h' this (insertion_sort compare xs)
    \<and> mset (insertion_sort compare xs) = mset xs
    \<and> ascending compare (insertion_sort compare xs)
    \<and> (\<forall>x y. equivalent compare x y \<and> precedes xs x y
          \<longrightarrow> precedes (insertion_sort compare xs) x y)
    \<and> (\<forall>k. filter (equivalent compare k) (insertion_sort compare xs)
          = filter (equivalent compare k) xs)"
proof -
  let ?zs = "insertion_sort compare xs"
  from list_sort_correct [OF assms(1), of compare]
  obtain h' where h': "list_sort compare h this = Some h'" "dlist h' this ?zs"
    by blast
  have m: "mset ?zs = mset xs" by (simp add: insertion_sort_def mset_insertion_sort_from)
  have a: "ascending compare ?zs"
    unfolding insertion_sort_def using assms(2)
    by (rule ascending_insertion_sort_from) (simp add: ascending_def)
  have f: "filter (equivalent compare k) ?zs = filter (equivalent compare k) xs" for k
    using stable_insertion_sort_from [OF assms(2), of k "[]" xs] by (simp add: insertion_sort_def)
  have p: "precedes ?zs x y" if "equivalent compare x y" "precedes xs x y" for x y
  proof -
    have xx: "equivalent compare x x" using swo_irrefl [OF assms(2)] by (simp add: equivalent_def)
    have "precedes (filter (equivalent compare x) xs) x y"
      using that xx by (simp add: precedes_filter)
    then have "precedes (filter (equivalent compare x) ?zs) x y" by (simp add: f)
    then show ?thesis using that(1) xx by (simp add: precedes_filter)
  qed
  show ?thesis using h' m a f p by blast
qed

theorem sort_sorted_stable_witness:
  "dlist sort_store 0 [1, 2, 3, 4, 5] \<and> map sort_value [1, 2, 3, 4, 5] = [5, 3, 5, 1, 4]
    \<and> (\<exists>h'. list_sort (less_by sort_value) sort_store 0 = Some h'
         \<and> dlist h' 0 [4, 2, 5, 1, 3] \<and> map sort_value [4, 2, 5, 1, 3] = [1, 3, 4, 5, 5]
         \<and> precedes [1, 2, 3, 4, 5] (1 :: addr) 3 \<and> precedes [4, 2, 5, 1, 3] (1 :: addr) 3)"
proof -
  have r: "insertion_sort (less_by sort_value) [1, 2, 3, 4, 5] = [4, 2, 5, 1, 3]"
    by (simp add: insertion_sort_def insert_sorted_def less_by_def sort_value_def)
  have v: "map sort_value [1, 2, 3, 4, 5] = [5, 3, 5, 1, 4]"
    "map sort_value [4, 2, 5, 1, 3] = [1, 3, 4, 5, 5]"
    by (simp_all add: sort_value_def)
  have p: "precedes [1, 2, 3, 4, 5] (1 :: addr) 3" "precedes [4, 2, 5, 1, 3] (1 :: addr) 3"
    by (simp_all add: precedes_def)
  from sort_sorted_stable [OF dlist_sort_store swo_less_by, of sort_value]
  obtain h' where h1: "list_sort (less_by sort_value) sort_store 0 = Some h'"
    and h2: "dlist h' 0 (insertion_sort (less_by sort_value) [1, 2, 3, 4, 5])"
    by blast
  have h3: "dlist h' 0 [4, 2, 5, 1, 3]" using h2 by (simp only: r)
  show ?thesis by (intro conjI exI [of _ h'] dlist_sort_store v p h1 h3)
qed

section \<open>swap\<close>

lemma one_empty_fields:
  "next (one_empty a) = (if a = 10 then 11 else if a = 11 then 12 else if a = 12 then 10 else a)"
  "previous (one_empty a) = (if a = 10 then 12 else if a = 11 then 10 else if a = 12 then 11 else a)"
  by (simp_all add: one_empty_def push_back_def in_list_def node_insert_before_def Let_def
      list_construct_def fresh_def)

lemma dlist_one_empty: "dlist one_empty 0 []" "dlist one_empty 10 [11, 12]"
  by (simp_all add: dlist_def link_def one_empty_fields)

lemma swap_one_empty_fields:
  "next (swap one_empty 0 10 a) = (if a = 10 then 11 else if a = 11 then 12 else if a = 12 then 10 else a)"
  "previous (swap one_empty 0 10 a) = (if a = 0 then 10 else if a = 10 then 0 else if a = 11 then 12 else if a = 12 then 11 else a)"
  by (simp_all add: swap_def swap_next_def swap_previous_def Let_def one_empty_fields)

lemma swap_one_empty_fields':
  "next (swap one_empty 10 0 a) = (if a = 10 then 11 else if a = 11 then 12 else if a = 12 then 10 else a)"
  "previous (swap one_empty 10 0 a) = (if a = 0 then 10 else if a = 10 then 0 else if a = 11 then 12 else if a = 12 then 11 else a)"
  by (simp_all add: swap_def swap_next_def swap_previous_def Let_def one_empty_fields)

text \<open>
  C2 on the code. \<open>swap\<close> exchanges the two headers' fields and then the back
  pointers of the two first elements and the forward pointers of the two last elements.
  When exactly one container is empty, the first and last element of the empty one are its
  own header, whose fields the first two exchanges have just set, and the last two
  exchanges overwrite them. With container 0 empty and container 10 holding 11 and 12,
  after \<open>swap\<close> container 0 does not hold 11 and 12, container 10 is not empty, and the
  fields are neither: header 0 has itself as successor and header 10 as predecessor,
  header 10 still has 11 as successor, and 11 has 12 both as successor and as
  predecessor.
\<close>

theorem swap_with_empty_corrupts:
  "dlist one_empty 0 [] \<and> dlist one_empty 10 [11, 12]
    \<and> \<not> dlist (swap one_empty 0 10) 0 [11, 12] \<and> \<not> dlist (swap one_empty 0 10) 10 []
    \<and> \<not> dlist (swap one_empty 10 0) 0 [11, 12] \<and> \<not> dlist (swap one_empty 10 0) 10 []
    \<and> next (swap one_empty 0 10 0) = 0 \<and> previous (swap one_empty 0 10 0) = 10
    \<and> next (swap one_empty 0 10 10) = 11 \<and> previous (swap one_empty 0 10 10) = 0
    \<and> next (swap one_empty 0 10 11) = 12 \<and> previous (swap one_empty 0 10 11) = 12"
  using dlist_one_empty
  by (simp add: dlist_def link_def swap_one_empty_fields swap_one_empty_fields')

text \<open>When both containers are empty, or neither is, \<open>swap\<close> does exchange them.\<close>

lemma swap_fields_nonempty:
  assumes "next (h a) = fa" "previous (h a) = la" "next (h b) = fb" "previous (h b) = lb"
    and "a \<noteq> b" "fa \<noteq> a" "fa \<noteq> b" "fb \<noteq> a" "fb \<noteq> b" "la \<noteq> a" "la \<noteq> b" "lb \<noteq> a" "lb \<noteq> b"
    and "fa \<noteq> fb" "la \<noteq> lb"
    and "previous (h fa) = a" "previous (h fb) = b" "next (h la) = a" "next (h lb) = b"
  shows "next (swap h a b c) = (if c = a then fb else if c = b then fa
      else if c = la then b else if c = lb then a else next (h c))"
    and "previous (swap h a b c) = (if c = a then lb else if c = b then la
      else if c = fa then b else if c = fb then a else previous (h c))"
  using assms by (simp_all add: swap_def swap_next_def swap_previous_def Let_def)

lemma swap_correct:
  assumes a: "dlist h a xs" and b: "dlist h b ys"
    and disj: "set (a # xs) \<inter> set (b # ys) = {}" and both: "xs = [] \<longleftrightarrow> ys = []"
  shows "dlist (swap h a b) a ys \<and> dlist (swap h a b) b xs
    \<and> (\<forall>c. c \<notin> set (a # xs) \<longrightarrow> c \<notin> set (b # ys) \<longrightarrow> swap h a b c = h c)"
proof (cases "xs = []")
  case True
  then have ys: "ys = []" using both by simp
  have sa: "self_linked h a" and sb: "self_linked h b"
    using a b True ys by (simp_all add: dlist_Nil_iff)
  have "swap h a b = h"
    using sa sb
    by (intro heap_eqI)
      (auto simp: self_linked_def swap_def swap_next_def swap_previous_def Let_def)
  then show ?thesis using a b True ys by simp
next
  case False
  then have ne: "ys \<noteq> []" using both by simp
  define fa la fb lb where "fa = hd xs" and "la = last xs" and "fb = hd ys" and "lb = last ys"
  note defs = this
  define h' where "h' = swap h a b"
  have da: "distinct (a # xs)" using a by (simp add: dlist_def)
  have db: "distinct (b # ys)" using b by (simp add: dlist_def)
  have fa_in: "fa \<in> set xs" and la_in: "la \<in> set xs" using False by (simp_all add: defs)
  have fb_in: "fb \<in> set ys" and lb_in: "lb \<in> set ys" using ne by (simp_all add: defs)
  have na: "next (h a) = fa" and pa: "previous (h a) = la"
    using a False by (simp_all add: dlist_header_next dlist_header_previous defs)
  have nb: "next (h b) = fb" and pb: "previous (h b) = lb"
    using b ne by (simp_all add: dlist_header_next dlist_header_previous defs)
  have pfa: "previous (h fa) = a"
    using dlist_previous_pos [of h a "[]" xs] a False by (simp add: defs)
  have pfb: "previous (h fb) = b"
    using dlist_previous_pos [of h b "[]" ys] b ne by (simp add: defs)
  have nla: "next (h la) = a"
    using dlist_next_pos [of h a xs "[]"] a False by (simp add: defs)
  have nlb: "next (h lb) = b"
    using dlist_next_pos [of h b ys "[]"] b ne by (simp add: defs)
  have neqs: "a \<noteq> b" "fa \<noteq> a" "fa \<noteq> b" "fb \<noteq> a" "fb \<noteq> b" "la \<noteq> a" "la \<noteq> b"
    "lb \<noteq> a" "lb \<noteq> b" "fa \<noteq> fb" "la \<noteq> lb"
    using da db disj fa_in la_in fb_in lb_in by auto
  note f = swap_fields_nonempty [OF na pa nb pb neqs pfa pfb nla nlb, folded h'_def]
  note nf = f(1) and pf = f(2)
  from a have sa: "successively (link h) ([a] @ xs @ [a])" by (simp add: dlist_def)
  from b have sb: "successively (link h) ([b] @ ys @ [b])" by (simp add: dlist_def)
  note sx = successively_split(1) [OF successively_split(2) [OF sa]]
  note sy = successively_split(1) [OF successively_split(2) [OF sb]]
  have s1: "successively (link h') ys"
  proof (rule seg_frame' [OF sy, where e = lb and s = fb])
    show "distinct ys" using db by simp
    show "next (h' c) = next (h c)" if "c \<in> set ys" "c \<noteq> lb" for c
      using that disj db la_in by (auto simp: nf)
    show "previous (h' c) = previous (h c)" if "c \<in> set ys" "c \<noteq> fb" for c
      using that disj db fa_in by (auto simp: pf)
  qed (simp_all add: defs)
  have s2: "successively (link h') xs"
  proof (rule seg_frame' [OF sx, where e = la and s = fa])
    show "distinct xs" using da by simp
    show "next (h' c) = next (h c)" if "c \<in> set xs" "c \<noteq> la" for c
      using that disj da lb_in by (auto simp: nf)
    show "previous (h' c) = previous (h c)" if "c \<in> set xs" "c \<noteq> fa" for c
      using that disj da fb_in by (auto simp: pf)
  qed (simp_all add: defs)
  have j1: "link h' (last [a]) (hd ys)" "link h' (last ys) (hd [a])"
    using neqs unfolding defs [symmetric] by (simp_all add: link_def nf pf)
  have j2: "link h' (last [b]) (hd xs)" "link h' (last xs) (hd [b])"
    using neqs unfolding defs [symmetric] by (simp_all add: link_def nf pf)
  have "successively (link h') ([a] @ ys @ [a])"
    by (rule successively_join2 [OF _ s1 _ j1 ne]) simp_all
  moreover have "distinct (a # ys)" using db disj by auto
  ultimately have 1: "dlist h' a ys" by (simp add: dlist_def)
  have "successively (link h') ([b] @ xs @ [b])"
    by (rule successively_join2 [OF _ s2 _ j2 False]) simp_all
  moreover have "distinct (b # xs)" using da disj by auto
  ultimately have 2: "dlist h' b xs" by (simp add: dlist_def)
  have "h' c = h c" if "c \<notin> set (a # xs)" "c \<notin> set (b # ys)" for c
  proof (rule node_eqI)
    have "c \<noteq> a" "c \<noteq> b" "c \<noteq> fa" "c \<noteq> la" "c \<noteq> fb" "c \<noteq> lb"
      using that fa_in fb_in la_in lb_in by auto
    then show "next (h' c) = next (h c)" "previous (h' c) = previous (h c)"
      by (simp_all add: nf pf)
  qed
  with 1 2 show ?thesis by (simp add: h'_def)
qed

section \<open>splice\<close>

lemma splice_list_correct:
  assumes a: "dlist h a (ps @ qs)" and b: "dlist h b ys"
    and disj: "set (a # ps @ qs) \<inter> set (b # ys) = {}"
  shows "dlist (splice_list h (hd (qs @ [a])) b) a (ps @ ys @ qs)
    \<and> dlist (splice_list h (hd (qs @ [a])) b) b []
    \<and> (\<forall>c. c \<notin> set (a # ps @ qs) \<longrightarrow> c \<notin> set (b # ys)
          \<longrightarrow> splice_list h (hd (qs @ [a])) b c = h c)"
proof (cases "ys = []")
  case True
  then have "next (h b) = b" using b by (simp add: dlist_Nil_iff self_linked_def)
  then have "splice_list h (hd (qs @ [a])) b = h"
    by (simp add: splice_list_def splice_range_def list_begin_def list_end_def)
  then show ?thesis using a b True by simp
next
  case False
  have nb: "list_begin h b = hd ys"
    using b False by (simp add: list_begin_def dlist_header_next)
  have b': "dlist h b ([] @ ys @ [])" using b by simp
  have d': "set (a # ps @ qs) \<inter> set (b # [] @ ys @ []) = {}" using disj by simp
  note s = dlist_splice [OF a b' False d']
  have e: "splice_list h (hd (qs @ [a])) b = splice_range h (hd (qs @ [a])) (hd ys) (hd ([] @ [b]))"
    by (simp add: splice_list_def nb list_end_def)
  show ?thesis unfolding e using s by simp
qed

lemma two_lists_fields:
  "next (two_lists a) = (if a = 0 then 1 else if a = 1 then 2 else if a = 2 then 0
     else if a = 10 then 11 else if a = 11 then 12 else if a = 12 then 10 else a)"
  "previous (two_lists a) = (if a = 0 then 2 else if a = 1 then 0 else if a = 2 then 1
     else if a = 10 then 12 else if a = 11 then 10 else if a = 12 then 11 else a)"
  by (simp_all add: two_lists_def push_back_def in_list_def node_insert_before_def Let_def
      list_construct_def fresh_def)

lemma splice_own_end_fields:
  "next (splice_range two_lists 2 1 2 a) = (if a = 0 then 2 else if a = 1 then 2 else if a = 2 then 0
     else if a = 10 then 11 else if a = 11 then 12 else if a = 12 then 10 else a)"
  "previous (splice_range two_lists 2 1 2 a) = (if a = 0 then 2 else if a = 1 then 1 else if a = 2 then 0
     else if a = 10 then 12 else if a = 11 then 10 else if a = 12 then 11 else a)"
  by (simp_all add: splice_range_def Let_def two_lists_fields)

text \<open>
  C9 on the code. \<open>splice(pos, first, last)\<close> reads the three predecessors and then
  writes six fields as if \<open>pos\<close>, \<open>first\<close> and \<open>last\<close> were three different link
  fields; only \<open>first == last\<close> is tested. When \<open>pos\<close> is \<open>last\<close>, the range already
  sits immediately before \<open>pos\<close> and nothing should change, but the writes for \<open>last\<close>
  undo those for \<open>pos\<close>: on the container \<open>[1, 2]\<close>, splicing the range from 1 to 2
  before 2 (which is also \<open>splice(pos, iter)\<close> with \<open>pos\<close> the successor of
  \<open>iter\<close>) leaves the container holding only 2, and object 1 is in no container with
  its successor field still pointing at 2.
\<close>

theorem splice_before_own_end_drops:
  "dlist two_lists 0 [1, 2]
    \<and> splice_iter two_lists 2 1 = splice_range two_lists 2 1 2
    \<and> \<not> dlist (splice_range two_lists 2 1 2) 0 [1, 2]
    \<and> dlist (splice_range two_lists 2 1 2) 0 [2]
    \<and> next (splice_range two_lists 2 1 2 1) = 2
    \<and> previous (splice_range two_lists 2 1 2 1) = 1"
proof -
  have f: "next (splice_range two_lists 2 1 2 0) = 2" "next (splice_range two_lists 2 1 2 1) = 2"
    "next (splice_range two_lists 2 1 2 2) = 0" "previous (splice_range two_lists 2 1 2 0) = 2"
    "previous (splice_range two_lists 2 1 2 1) = 1" "previous (splice_range two_lists 2 1 2 2) = 0"
    by (simp_all add: splice_own_end_fields del: One_nat_def)
  have i: "splice_iter two_lists 2 1 = splice_range two_lists 2 1 2"
    by (simp add: splice_iter_def two_lists_fields del: One_nat_def)
  show ?thesis using dlist_two_lists(1) f i by (simp add: dlist_def link_def)
qed

text \<open>
  Inside one container \<open>splice\<close> is right whenever \<open>pos\<close> is outside the closed range
  from \<open>first\<close> to \<open>last\<close>: it then exchanges two neighbouring stretches of the
  container.
\<close>

lemma exchange_stretches:
  assumes d: "dlist h l (as @ s2 @ s3 @ bs)" and n2: "s2 \<noteq> []" and n3: "s3 \<noteq> []"
    and nf: "\<And>c. next (h' c) = (if c = last (l # as) then hd s3 else if c = last s2 then hd (bs @ [l])
          else if c = last s3 then hd s2 else next (h c))"
    and pf: "\<And>c. previous (h' c) = (if c = hd s3 then last (l # as) else if c = hd (bs @ [l]) then last s2
          else if c = hd s2 then last s3 else previous (h c))"
  shows "dlist h' l (as @ s3 @ s2 @ bs)"
proof -
  define e1 e2 e3 p2 p3 p4 where "e1 = last (l # as)" and "e2 = last s2" and "e3 = last s3"
    and "p2 = hd s2" and "p3 = hd s3" and "p4 = hd (bs @ [l])"
  note defs = this
  note nf' = nf [folded defs] and pf' = pf [folded defs]
  have dist: "distinct (l # as @ s2 @ s3 @ bs)" using d by (simp add: dlist_def)
  have e1_in: "e1 \<in> set (l # as)" unfolding defs by (rule last_Cons_in)
  have p4_in: "p4 \<in> set (bs @ [l])" unfolding defs by (rule hd_snoc_in)
  have e2_in: "e2 \<in> set s2" and p2_in: "p2 \<in> set s2" using n2 by (simp_all add: defs)
  have e3_in: "e3 \<in> set s3" and p3_in: "p3 \<in> set s3" using n3 by (simp_all add: defs)
  from d have s: "successively (link h) ((l # as) @ s2 @ s3 @ (bs @ [l]))" by (simp add: dlist_def)
  note t1 = successively_split(1) [OF s]
  note r1 = successively_split(2) [OF s]
  note t2 = successively_split(1) [OF r1]
  note r2 = successively_split(2) [OF r1]
  note t3 = successively_split(1) [OF r2]
  note t4 = successively_split(2) [OF r2]
  have s1: "successively (link h') (l # as)"
  proof (rule seg_frame' [OF t1, where e = e1 and s = l])
    show "distinct (l # as)" using dist by simp
    show "next (h' c) = next (h c)" if "c \<in> set (l # as)" "c \<noteq> e1" for c
      using that dist e2_in e3_in by (auto simp: nf')
    show "previous (h' c) = previous (h c)" if "c \<in> set (l # as)" "c \<noteq> l" for c
      using that dist p2_in p3_in p4_in by (auto simp: pf')
  qed (simp_all add: defs)
  have s2: "successively (link h') s2"
  proof (rule seg_frame' [OF t2, where e = e2 and s = p2])
    show "distinct s2" using dist by simp
    show "next (h' c) = next (h c)" if "c \<in> set s2" "c \<noteq> e2" for c
      using that dist e1_in e3_in by (auto simp: nf')
    show "previous (h' c) = previous (h c)" if "c \<in> set s2" "c \<noteq> p2" for c
      using that dist p3_in p4_in by (auto simp: pf')
  qed (simp_all add: defs)
  have s3: "successively (link h') s3"
  proof (rule seg_frame' [OF t3, where e = e3 and s = p3])
    show "distinct s3" using dist by simp
    show "next (h' c) = next (h c)" if "c \<in> set s3" "c \<noteq> e3" for c
      using that dist e1_in e2_in by (auto simp: nf')
    show "previous (h' c) = previous (h c)" if "c \<in> set s3" "c \<noteq> p3" for c
      using that dist p2_in p4_in by (auto simp: pf')
  qed (simp_all add: defs)
  have s4: "successively (link h') (bs @ [l])"
  proof (rule seg_frame' [OF t4, where e = l and s = p4])
    show "distinct (bs @ [l])" using dist by simp
    show "next (h' c) = next (h c)" if "c \<in> set (bs @ [l])" "c \<noteq> l" for c
      using that dist e1_in e2_in e3_in by (auto simp: nf')
    show "previous (h' c) = previous (h c)" if "c \<in> set (bs @ [l])" "c \<noteq> p4" for c
      using that dist p2_in p3_in by (auto simp: pf')
  qed (simp_all add: defs)
  have ne: "e1 \<noteq> e2" "e1 \<noteq> e3" "e2 \<noteq> e3" "p2 \<noteq> p3" "p2 \<noteq> p4" "p3 \<noteq> p4"
    using dist e1_in e2_in e3_in p2_in p3_in p4_in by auto
  have j1: "link h' (last (l # as)) (hd s3)"
    using ne unfolding defs [symmetric] by (simp add: link_def nf' pf')
  have j2: "link h' (last s3) (hd s2)"
    using ne unfolding defs [symmetric] by (simp add: link_def nf' pf')
  have j3: "link h' (last s2) (hd (bs @ [l]))"
    using ne unfolding defs [symmetric] by (simp add: link_def nf' pf')
  have "successively (link h') (s2 @ (bs @ [l]))"
    by (rule successively_join [OF s2 s4 j3])
  moreover have "hd (s2 @ (bs @ [l])) = hd s2" using n2 by simp
  ultimately have "successively (link h') ((l # as) @ s3 @ (s2 @ (bs @ [l])))"
    using j2 by (intro successively_join2 [OF s1 s3 _ j1 _ n3]) simp_all
  moreover have "distinct (l # as @ s3 @ s2 @ bs)" using dist by auto
  ultimately show ?thesis by (simp add: dlist_def)
qed

lemma splice_same_list_before:
  assumes d: "dlist h l (as @ qs @ rs @ bs)" and nq: "qs \<noteq> []" and nr: "rs \<noteq> []"
  shows "dlist (splice_range h (hd qs) (hd rs) (hd (bs @ [l]))) l (as @ rs @ qs @ bs)"
proof (rule exchange_stretches [OF d nq nr])
  have dist: "distinct (l # as @ qs @ rs @ bs)" using d by (simp add: dlist_def)
  have "previous (h (hd ((qs @ rs @ bs) @ [l]))) = last (l # as)"
    using d by (intro dlist_previous_pos) simp
  then have bp: "previous (h (hd qs)) = last (l # as)" using nq by simp
  have "previous (h (hd ((rs @ bs) @ [l]))) = last (l # as @ qs)"
    using d by (intro dlist_previous_pos) simp
  then have bf: "previous (h (hd rs)) = last qs" using nq nr by simp
  have "previous (h (hd (bs @ [l]))) = last (l # as @ qs @ rs)"
    using d by (intro dlist_previous_pos) simp
  then have bl: "previous (h (hd (bs @ [l]))) = last rs" using nr by simp
  have in1: "hd rs \<in> set rs" "last rs \<in> set rs" "hd qs \<in> set qs" "last qs \<in> set qs"
    using nq nr by simp_all
  have in2: "hd (bs @ [l]) \<in> set (bs @ [l])" "last (l # as) \<in> set (l # as)"
    by (rule hd_snoc_in, rule last_Cons_in)
  have fl: "hd rs \<noteq> hd (bs @ [l])" using dist in1 in2 by auto
  have ne: "last (l # as) \<noteq> last qs" "last (l # as) \<noteq> last rs" "last qs \<noteq> last rs"
    "hd qs \<noteq> hd rs" "hd qs \<noteq> hd (bs @ [l])"
    using dist in1 in2 by auto
  show "next (splice_range h (hd qs) (hd rs) (hd (bs @ [l])) c) =
      (if c = last (l # as) then hd rs else if c = last qs then hd (bs @ [l])
       else if c = last rs then hd qs else next (h c))" for c
    using ne by (simp add: splice_range_next [OF fl] bp bf bl)
  show "previous (splice_range h (hd qs) (hd rs) (hd (bs @ [l])) c) =
      (if c = hd rs then last (l # as) else if c = hd (bs @ [l]) then last qs
       else if c = hd qs then last rs else previous (h c))" for c
    using ne fl by (simp add: splice_range_previous [OF fl] bp bf bl)
qed

lemma splice_same_list_after:
  assumes d: "dlist h l (as @ rs @ qs @ bs)" and nq: "qs \<noteq> []" and nr: "rs \<noteq> []"
  shows "dlist (splice_range h (hd (bs @ [l])) (hd rs) (hd qs)) l (as @ qs @ rs @ bs)"
proof (rule exchange_stretches [OF d nr nq])
  have dist: "distinct (l # as @ rs @ qs @ bs)" using d by (simp add: dlist_def)
  have "previous (h (hd ((rs @ qs @ bs) @ [l]))) = last (l # as)"
    using d by (intro dlist_previous_pos) simp
  then have bf: "previous (h (hd rs)) = last (l # as)" using nr by simp
  have "previous (h (hd ((qs @ bs) @ [l]))) = last (l # as @ rs)"
    using d by (intro dlist_previous_pos) simp
  then have bl: "previous (h (hd qs)) = last rs" using nq nr by simp
  have "previous (h (hd (bs @ [l]))) = last (l # as @ rs @ qs)"
    using d by (intro dlist_previous_pos) simp
  then have bp: "previous (h (hd (bs @ [l]))) = last qs" using nq by simp
  have in1: "hd rs \<in> set rs" "last rs \<in> set rs" "hd qs \<in> set qs" "last qs \<in> set qs"
    using nq nr by simp_all
  have in2: "hd (bs @ [l]) \<in> set (bs @ [l])" "last (l # as) \<in> set (l # as)"
    by (rule hd_snoc_in, rule last_Cons_in)
  have fl: "hd rs \<noteq> hd qs" using dist in1 by auto
  have ne: "last (l # as) \<noteq> last qs" "last (l # as) \<noteq> last rs" "last qs \<noteq> last rs"
    "hd qs \<noteq> hd (bs @ [l])" "hd rs \<noteq> hd (bs @ [l])"
    using dist in1 in2 by auto
  show "next (splice_range h (hd (bs @ [l])) (hd rs) (hd qs) c) =
      (if c = last (l # as) then hd qs else if c = last rs then hd (bs @ [l])
       else if c = last qs then hd rs else next (h c))" for c
    using ne by (simp add: splice_range_next [OF fl] bp bf bl)
  show "previous (splice_range h (hd (bs @ [l])) (hd rs) (hd qs) c) =
      (if c = hd qs then last (l # as) else if c = hd (bs @ [l]) then last rs
       else if c = hd rs then last qs else previous (h c))" for c
    using ne fl by (simp add: splice_range_previous [OF fl] bp bf bl)
qed

section \<open>Doubly-linked consistency\<close>

lemma linked_fresh: "linked fresh"
  by (simp add: linked_def linked_at_def fresh_def)

lemma linked_one_empty: "linked one_empty"
  by (simp add: linked_def linked_at_def one_empty_fields)

text \<open>
  C7 on the code. From a store of freshly constructed link fields, constructing two
  containers and pushing two objects into the second one gives the store \<open>one_empty\<close>, in
  which every link field is consistent. Swapping the two containers is a well-formed
  call, and after it the header of the first container has itself as successor but the
  other header as predecessor, and object 11 has a predecessor whose successor is not 11:
  consistency is lost. Header 0 is then not self-linked although its container holds
  nothing.
\<close>

theorem swap_breaks_linked:
  "push_back_all (list_construct (list_construct fresh 0) 10) 10 [11, 12] = Some one_empty
    \<and> linked fresh \<and> linked one_empty
    \<and> \<not> linked_at (swap one_empty 0 10) 0 \<and> \<not> linked_at (swap one_empty 0 10) 11
    \<and> \<not> linked (swap one_empty 0 10)
    \<and> \<not> in_list (swap one_empty 0 10) 0 \<and> \<not> self_linked (swap one_empty 0 10) 0"
proof -
  have p: "push_back_all (list_construct (list_construct fresh 0) 10) 10 [11, 12] = Some one_empty"
    by (simp add: one_empty_def push_back_def in_list_def node_insert_before_def Let_def
        list_construct_def fresh_def)
  have a: "\<not> linked_at (swap one_empty 0 10) 0" "\<not> linked_at (swap one_empty 0 10) 11"
    by (simp_all add: linked_at_def swap_one_empty_fields)
  then have "\<not> linked (swap one_empty 0 10)" unfolding linked_def by blast
  moreover have "\<not> in_list (swap one_empty 0 10) 0" "\<not> self_linked (swap one_empty 0 10) 0"
    by (simp_all add: in_list_def self_linked_def swap_one_empty_fields)
  ultimately show ?thesis using p a linked_fresh linked_one_empty by blast
qed

section \<open>Well-formed states\<close>

lemma well_formed_change:
  assumes wf: "well_formed h L"
    and fr: "\<And>c. c \<notin> F \<Longrightarrow> h' c = h c"
    and keep: "\<And>m ys. L' m = Some ys \<Longrightarrow> m \<notin> K \<Longrightarrow> L m = Some ys \<and> set (m # ys) \<inter> F = {}"
    and chg: "\<And>m ys. L' m = Some ys \<Longrightarrow> m \<in> K \<Longrightarrow> dlist h' m ys \<and> set (m # ys) \<subseteq> F"
    and dis: "\<And>m ys k zs. L' m = Some ys \<Longrightarrow> L' k = Some zs \<Longrightarrow> m \<in> K \<Longrightarrow> k \<in> K \<Longrightarrow> m \<noteq> k
          \<Longrightarrow> set (m # ys) \<inter> set (k # zs) = {}"
    and rest: "\<And>n. in_no_list L' n \<Longrightarrow> n \<in> F \<Longrightarrow> self_linked h' n"
    and old: "\<And>n. in_no_list L' n \<Longrightarrow> n \<notin> F \<Longrightarrow> in_no_list L n"
  shows "well_formed h' L'"
proof -
  have wf1: "dlist h m ys" if "L m = Some ys" for m ys
    using wf that unfolding well_formed_def by blast
  have wf2: "set (m # ys) \<inter> set (k # zs) = {}" if "L m = Some ys" "L k = Some zs" "m \<noteq> k"
    for m ys k zs
    using wf that unfolding well_formed_def by blast
  have wf3: "self_linked h n" if "in_no_list L n" for n
    using wf that unfolding well_formed_def by blast
  have 1: "dlist h' m ys" if m: "L' m = Some ys" for m ys
  proof (cases "m \<in> K")
    case True
    then show ?thesis using chg m by blast
  next
    case False
    then have k: "L m = Some ys" "set (m # ys) \<inter> F = {}" using keep m by blast+
    have "\<forall>c \<in> set (m # ys). h' c = h c" using k(2) fr by blast
    with wf1 [OF k(1)] show ?thesis by (rule dlist_frame)
  qed
  have 2: "set (m # ys) \<inter> set (k # zs) = {}"
    if m: "L' m = Some ys" and k: "L' k = Some zs" and ne: "m \<noteq> k" for m ys k zs
  proof (cases "m \<in> K"; cases "k \<in> K")
    assume "m \<in> K" "k \<in> K"
    then show ?thesis using dis m k ne by blast
  next
    assume a: "m \<in> K" "k \<notin> K"
    have "set (m # ys) \<subseteq> F" using chg m a(1) by blast
    moreover have "set (k # zs) \<inter> F = {}" using keep k a(2) by blast
    ultimately show ?thesis by blast
  next
    assume a: "m \<notin> K" "k \<in> K"
    have "set (k # zs) \<subseteq> F" using chg k a(2) by blast
    moreover have "set (m # ys) \<inter> F = {}" using keep m a(1) by blast
    ultimately show ?thesis by blast
  next
    assume a: "m \<notin> K" "k \<notin> K"
    have "L m = Some ys" "L k = Some zs" using keep m k a by blast+
    then show ?thesis using ne by (rule wf2)
  qed
  have 3: "self_linked h' n" if n: "in_no_list L' n" for n
  proof (cases "n \<in> F")
    case True
    then show ?thesis using rest n by blast
  next
    case False
    then have "self_linked h n" using old n wf3 by blast
    moreover have "h' n = h n" using fr False by blast
    ultimately show ?thesis by (simp add: self_linked_def)
  qed
  show ?thesis unfolding well_formed_def using 1 2 3 by blast
qed

lemma well_formed_update:
  assumes wf: "well_formed h L" and l: "L l = Some xs" and d: "dlist h' l xs'"
    and fr: "\<And>c. c \<notin> set (l # xs) \<Longrightarrow> c \<notin> N \<Longrightarrow> h' c = h c"
    and N: "\<And>n. n \<in> N \<Longrightarrow> in_no_list L n"
    and sub: "set xs' \<subseteq> set xs \<union> N"
    and dropped: "\<And>n. n \<in> set xs \<union> N \<Longrightarrow> n \<notin> set xs' \<Longrightarrow> self_linked h' n"
  shows "well_formed h' (L(l \<mapsto> xs'))"
proof (rule well_formed_change [OF wf, where F = "set (l # xs) \<union> N" and K = "{l}"])
  have wf2: "set (m # ys) \<inter> set (k # zs) = {}" if "L m = Some ys" "L k = Some zs" "m \<noteq> k"
    for m ys k zs
    using wf that unfolding well_formed_def by blast
  show "h' c = h c" if "c \<notin> set (l # xs) \<union> N" for c using that fr by blast
  show "L m = Some ys \<and> set (m # ys) \<inter> (set (l # xs) \<union> N) = {}"
    if "(L(l \<mapsto> xs')) m = Some ys" "m \<notin> {l}" for m ys
  proof -
    have m: "L m = Some ys" "m \<noteq> l" using that by (auto split: if_splits)
    have "set (m # ys) \<inter> set (l # xs) = {}" using wf2 [OF m(1) l m(2)] .
    moreover have "set (m # ys) \<inter> N = {}" using N m(1) unfolding in_no_list_def by blast
    ultimately show ?thesis using m(1) by blast
  qed
  show "dlist h' m ys \<and> set (m # ys) \<subseteq> set (l # xs) \<union> N"
    if "(L(l \<mapsto> xs')) m = Some ys" "m \<in> {l}" for m ys
    using that d sub by auto
  show "set (m # ys) \<inter> set (k # zs) = {}"
    if "m \<in> {l}" "k \<in> {l}" "m \<noteq> k" for m ys k zs
    using that by simp
  show "self_linked h' n" if "in_no_list (L(l \<mapsto> xs')) n" "n \<in> set (l # xs) \<union> N" for n
  proof -
    have "n \<notin> set (l # xs')" using that(1) unfolding in_no_list_def by (auto split: if_splits)
    then show ?thesis using that(2) dropped by auto
  qed
  show "in_no_list L n" if "in_no_list (L(l \<mapsto> xs')) n" "n \<notin> set (l # xs) \<union> N" for n
    unfolding in_no_list_def
  proof (intro allI impI)
    fix m ys assume m: "L m = Some ys"
    show "n \<notin> set (m # ys)"
    proof (cases "m = l")
      case True
      then show ?thesis using m l that(2) by auto
    next
      case False
      then have "(L(l \<mapsto> xs')) m = Some ys" using m by simp
      then show ?thesis using that(1) unfolding in_no_list_def by blast
    qed
  qed
qed

lemma well_formed_update2:
  assumes wf: "well_formed h L" and a: "L a = Some xs" and b: "L b = Some ys" and ab: "a \<noteq> b"
    and da: "dlist h' a xs'" and db: "dlist h' b ys'"
    and fr: "\<And>c. c \<notin> set (a # xs) \<Longrightarrow> c \<notin> set (b # ys) \<Longrightarrow> h' c = h c"
    and same: "set xs' \<union> set ys' = set xs \<union> set ys"
    and disj: "set xs' \<inter> set ys' = {}"
  shows "well_formed h' (L(a \<mapsto> xs', b \<mapsto> ys'))"
proof (rule well_formed_change [OF wf, where F = "set (a # xs) \<union> set (b # ys)" and K = "{a, b}"])
  let ?L = "L(a \<mapsto> xs', b \<mapsto> ys')"
  have wf2: "set (m # zs) \<inter> set (k # ws) = {}" if "L m = Some zs" "L k = Some ws" "m \<noteq> k"
    for m zs k ws
    using wf that unfolding well_formed_def by blast
  have old_disj: "set (a # xs) \<inter> set (b # ys) = {}" using wf2 [OF a b ab] .
  show "h' c = h c" if "c \<notin> set (a # xs) \<union> set (b # ys)" for c using that fr by blast
  show "L m = Some zs \<and> set (m # zs) \<inter> (set (a # xs) \<union> set (b # ys)) = {}"
    if "?L m = Some zs" "m \<notin> {a, b}" for m zs
  proof -
    have m: "L m = Some zs" "m \<noteq> a" "m \<noteq> b" using that by (auto split: if_splits)
    have "set (m # zs) \<inter> set (a # xs) = {}" using wf2 [OF m(1) a m(2)] .
    moreover have "set (m # zs) \<inter> set (b # ys) = {}" using wf2 [OF m(1) b m(3)] .
    ultimately show ?thesis using m(1) by blast
  qed
  show "dlist h' m zs \<and> set (m # zs) \<subseteq> set (a # xs) \<union> set (b # ys)"
    if "?L m = Some zs" "m \<in> {a, b}" for m zs
    using that da db same ab by (auto split: if_splits)
  show "set (m # zs) \<inter> set (k # ws) = {}"
    if "?L m = Some zs" "?L k = Some ws" "m \<in> {a, b}" "k \<in> {a, b}" "m \<noteq> k" for m zs k ws
  proof -
    have "dlist h a xs" "dlist h b ys" using wf a b unfolding well_formed_def by blast+
    then have "a \<notin> set xs \<union> set ys" "b \<notin> set xs \<union> set ys"
      using old_disj by (auto simp: dlist_def)
    then have "a \<notin> set ys'" "b \<notin> set xs'" "a \<notin> set xs'" "b \<notin> set ys'"
      using same by auto
    then show ?thesis using that ab disj by (auto split: if_splits)
  qed
  show "self_linked h' n" if "in_no_list ?L n" "n \<in> set (a # xs) \<union> set (b # ys)" for n
  proof -
    have "n \<notin> set (a # xs')" "n \<notin> set (b # ys')"
      using that(1) ab unfolding in_no_list_def by (auto split: if_splits)
    then show ?thesis using that(2) same by auto
  qed
  show "in_no_list L n" if "in_no_list ?L n" "n \<notin> set (a # xs) \<union> set (b # ys)" for n
    unfolding in_no_list_def
  proof (intro allI impI)
    fix m zs assume m: "L m = Some zs"
    show "n \<notin> set (m # zs)"
    proof (cases "m = a \<or> m = b")
      case True
      then show ?thesis using m a b that(2) by auto
    next
      case False
      then have "?L m = Some zs" using m by simp
      then show ?thesis using that(1) unfolding in_no_list_def by blast
    qed
  qed
qed

lemma well_formed_new:
  assumes wf: "well_formed h L" and l: "in_no_list L l"
  shows "well_formed h (L(l \<mapsto> []))"
proof (rule well_formed_change [OF wf, where F = "{l}" and K = "{l}"])
  have sl: "self_linked h l" using wf l unfolding well_formed_def by blast
  show "h c = h c" for c by simp
  show "L m = Some ys \<and> set (m # ys) \<inter> {l} = {}"
    if "(L(l \<mapsto> [])) m = Some ys" "m \<notin> {l}" for m ys
    using that l unfolding in_no_list_def by (auto split: if_splits)
  show "dlist h m ys \<and> set (m # ys) \<subseteq> {l}" if "(L(l \<mapsto> [])) m = Some ys" "m \<in> {l}" for m ys
    using that sl by (auto simp: dlist_Nil_iff)
  show "set (m # ys) \<inter> set (k # zs) = {}" if "m \<in> {l}" "k \<in> {l}" "m \<noteq> k" for m ys k zs
    using that by simp
  show "self_linked h n" if "in_no_list (L(l \<mapsto> [])) n" "n \<in> {l}" for n
    using that sl by simp
  show "in_no_list L n" if "in_no_list (L(l \<mapsto> [])) n" "n \<notin> {l}" for n
    unfolding in_no_list_def
  proof (intro allI impI)
    fix m ys assume m: "L m = Some ys"
    then have "m \<noteq> l" using l unfolding in_no_list_def by auto
    then have "(L(l \<mapsto> [])) m = Some ys" using m by simp
    then show "n \<notin> set (m # ys)" using that(1) unfolding in_no_list_def by blast
  qed
qed

lemma well_formed_dlist: "well_formed h L \<Longrightarrow> L l = Some xs \<Longrightarrow> dlist h l xs"
  unfolding well_formed_def by blast

lemma well_formed_disjoint:
  "well_formed h L \<Longrightarrow> L a = Some xs \<Longrightarrow> L b = Some ys \<Longrightarrow> a \<noteq> b
    \<Longrightarrow> set (a # xs) \<inter> set (b # ys) = {}"
  unfolding well_formed_def by blast

lemma well_formed_self_linked: "well_formed h L \<Longrightarrow> in_no_list L n \<Longrightarrow> self_linked h n"
  unfolding well_formed_def by blast

lemma in_no_list_notin: "in_no_list L n \<Longrightarrow> L l = Some xs \<Longrightarrow> n \<notin> set (l # xs)"
  unfolding in_no_list_def by blast

section \<open>Every well-formed call keeps the state well formed\<close>

lemma node_insert_after_eq:
  assumes d: "dlist h l (us @ vs)" and n: "n \<notin> set (l # us @ vs)"
  shows "node_insert_after h (last (l # us)) n = node_insert_before h (hd (vs @ [l])) n"
proof -
  define p s where "p = last (l # us)" and "s = hd (vs @ [l])"
  have ps: "previous (h s) = p" unfolding p_def s_def using d by (rule dlist_previous_pos)
  have np: "next (h p) = s" unfolding p_def s_def using d by (rule dlist_next_pos)
  have "p \<in> set (l # us)" "s \<in> set (vs @ [l])"
    unfolding p_def s_def by (rule last_Cons_in, rule hd_snoc_in)
  then have ne: "n \<noteq> p" "n \<noteq> s" using n by auto
  have "node_insert_after h p n = node_insert_before h s n"
    using ne ps np
    by (intro heap_eqI) (auto simp: node_insert_after_def node_insert_before_def Let_def)
  then show ?thesis by (simp add: p_def s_def)
qed

lemma step_insert:
  assumes wf: "well_formed h L" and l: "L l = Some (ps @ qs)" and v: "in_no_list L v"
  shows "well_formed (node_insert_before h (hd (qs @ [l])) v) (L(l \<mapsto> ps @ v # qs))"
proof (rule well_formed_update [OF wf l, where N = "{v}"])
  have d: "dlist h l (ps @ qs)" using wf l by (rule well_formed_dlist)
  have n: "v \<notin> set (l # ps @ qs)" using v l by (rule in_no_list_notin)
  show "dlist (node_insert_before h (hd (qs @ [l])) v) l (ps @ v # qs)"
    using d n by (rule dlist_insert_before)
  show "node_insert_before h (hd (qs @ [l])) v c = h c"
    if "c \<notin> set (l # ps @ qs)" "c \<notin> {v}" for c
    using dlist_insert_before_frame [OF d that(1), of v] that(2) by simp
  show "in_no_list L n" if "n \<in> {v}" for n using that v by simp
  show "set (ps @ v # qs) \<subseteq> set (ps @ qs) \<union> {v}" by auto
  show "self_linked (node_insert_before h (hd (qs @ [l])) v) n"
    if "n \<in> set (ps @ qs) \<union> {v}" "n \<notin> set (ps @ v # qs)" for n
    using that by auto
qed

lemma step_remove:
  assumes wf: "well_formed h L" and l: "L l = Some (us @ x # vs)"
  shows "well_formed (node_remove h x) (L(l \<mapsto> us @ vs))"
proof (rule well_formed_update [OF wf l, where N = "{}"])
  have d: "dlist h l (us @ x # vs)" using wf l by (rule well_formed_dlist)
  then have dist: "distinct (l # us @ x # vs)" by (simp add: dlist_def)
  show "dlist (node_remove h x) l (us @ vs)" using d by (rule dlist_remove)
  show "node_remove h x c = h c" if "c \<notin> set (l # us @ x # vs)" for c
    using d that by (rule dlist_remove_frame)
  show "set (us @ vs) \<subseteq> set (us @ x # vs) \<union> {}" by auto
  show "self_linked (node_remove h x) n"
    if "n \<in> set (us @ x # vs) \<union> {}" "n \<notin> set (us @ vs)" for n
  proof -
    have "n = x" using that by auto
    then show ?thesis by (simp add: node_remove_self_linked)
  qed
qed simp

lemma step_push_back:
  assumes wf: "well_formed h L" and l: "L l = Some xs" and v: "in_no_list L v"
    and p: "push_back h l v = Some h'"
  shows "well_formed h' (L(l \<mapsto> xs @ [v]))"
proof -
  have "h' = node_insert_before h (hd ([] @ [l])) v"
    using p by (simp add: push_back_def split: if_splits)
  then show ?thesis using step_insert [OF wf, of l xs "[]" v] l v by simp
qed

lemma step_push_front:
  assumes wf: "well_formed h L" and l: "L l = Some xs" and v: "in_no_list L v"
    and p: "push_front h l v = Some h'"
  shows "well_formed h' (L(l \<mapsto> v # xs))"
proof -
  have d: "dlist h l ([] @ xs)" using well_formed_dlist [OF wf l] by simp
  have n: "v \<notin> set (l # [] @ xs)" using in_no_list_notin [OF v l] by simp
  have "h' = node_insert_after h l v"
    using p by (simp add: push_front_def split: if_splits)
  then have "h' = node_insert_before h (hd (xs @ [l])) v"
    using node_insert_after_eq [OF d n] by simp
  then show ?thesis using step_insert [OF wf, of l "[]" xs v] l v by simp
qed

lemma step_insert_after:
  assumes wf: "well_formed h L" and l: "L l = Some (ps @ qs)" and v: "in_no_list L v"
  shows "well_formed (list_insert_after h (last (l # ps)) v) (L(l \<mapsto> ps @ v # qs))"
proof -
  have d: "dlist h l (ps @ qs)" using wf l by (rule well_formed_dlist)
  have n: "v \<notin> set (l # ps @ qs)" using v l by (rule in_no_list_notin)
  show ?thesis
    unfolding list_insert_after_def node_insert_after_eq [OF d n]
    using wf l v by (rule step_insert)
qed

lemma step_pop_front:
  assumes wf: "well_formed h L" and l: "L l = Some (x # xs)"
  shows "well_formed (pop_front h l) (L(l \<mapsto> xs))"
proof -
  have "next (h l) = x" using dlist_header_next [OF well_formed_dlist [OF wf l]] by simp
  then show ?thesis using step_remove [OF wf, of l "[]" x xs] l by (simp add: pop_front_def)
qed

lemma step_pop_back:
  assumes wf: "well_formed h L" and l: "L l = Some (xs @ [x])"
  shows "well_formed (pop_back h l) (L(l \<mapsto> xs))"
proof -
  have "previous (h l) = x" using dlist_header_previous [OF well_formed_dlist [OF wf l]] by simp
  then show ?thesis using step_remove [OF wf, of l xs x "[]"] l by (simp add: pop_back_def)
qed

lemma step_pop_empty:
  assumes wf: "well_formed h L" and l: "L l = Some []"
  shows "well_formed (pop_front h l) L" and "well_formed (pop_back h l) L"
  using pop_empty_id [OF well_formed_dlist [OF wf l]] wf by simp_all

lemma step_unlisted:
  assumes wf: "well_formed h L" and n: "in_no_list L n"
  shows "well_formed (node_construct h n) L" and "well_formed (node_remove h n) L"
    and "well_formed (list_construct h n) (L(n \<mapsto> []))"
proof -
  have s: "self_linked h n" using wf n by (rule well_formed_self_linked)
  then have "node_construct h n = h" "list_construct h n = h"
    by (auto simp: node_construct_def list_construct_def self_linked_def intro!: heap_eqI)
  then show "well_formed (node_construct h n) L"
    and "well_formed (list_construct h n) (L(n \<mapsto> []))"
    using wf well_formed_new [OF wf n] by simp_all
  show "well_formed (node_remove h n) L" using s wf by (simp add: node_remove_self_linked_id)
qed

lemma dlist_neighbours_in:
  assumes d: "dlist h l xs" and x: "x \<in> set (l # xs)"
  shows "next (h x) \<in> set (l # xs)" and "previous (h x) \<in> set (l # xs)" and "linked_at h x"
proof -
  have "next (h x) \<in> set (l # xs) \<and> previous (h x) \<in> set (l # xs) \<and> linked_at h x"
  proof (cases "x = l")
    case True
    have n: "next (h l) = hd (xs @ [l])" using d by (rule dlist_header_next)
    have p: "previous (h l) = last (l # xs)" using d by (rule dlist_header_previous)
    have "previous (h (hd (xs @ [l]))) = last (l # [])"
      using dlist_previous_pos [of h l "[]" xs] d by simp
    moreover have "next (h (last (l # xs))) = hd ([] @ [l])"
      using dlist_next_pos [of h l xs "[]"] d by simp
    moreover have "hd (xs @ [l]) \<in> set (xs @ [l])" "last (l # xs) \<in> set (l # xs)"
      by (rule hd_snoc_in, rule last_Cons_in)
    ultimately show ?thesis using True n p by (auto simp: linked_at_def)
  next
    case False
    then obtain us vs where xs: "xs = us @ x # vs" using x by (auto dest: split_list)
    have d': "dlist h l (us @ x # vs)" using d xs by simp
    have n: "next (h x) = hd (vs @ [l])" using d' by (rule dlist_next)
    have p: "previous (h x) = last (l # us)" using d' by (rule dlist_previous)
    have "previous (h (hd (vs @ [l]))) = last (l # us @ [x])"
      using dlist_previous_pos [of h l "us @ [x]" vs] d' by simp
    moreover have "next (h (last (l # us))) = hd ((x # vs) @ [l])"
      using dlist_next_pos [of h l us "x # vs"] d' by simp
    moreover have "hd (vs @ [l]) \<in> set (vs @ [l])" "last (l # us) \<in> set (l # us)"
      by (rule hd_snoc_in, rule last_Cons_in)
    ultimately show ?thesis using n p xs by (auto simp: linked_at_def)
  qed
  then show "next (h x) \<in> set (l # xs)" and "previous (h x) \<in> set (l # xs)"
    and "linked_at h x" by simp_all
qed

lemma dlist_member_in_list:
  assumes d: "dlist h l xs" and x: "x \<in> set xs"
  shows "in_list h x" and "\<not> self_linked h x"
proof -
  from x obtain us vs where xs: "xs = us @ x # vs" by (auto dest: split_list)
  have "next (h x) = hd (vs @ [l])" using d xs dlist_next [of h l us x vs] by simp
  moreover have "hd (vs @ [l]) \<in> set (vs @ [l])" by (rule hd_snoc_in)
  moreover have "distinct (l # us @ x # vs)" using d xs by (simp add: dlist_def)
  ultimately have "next (h x) \<noteq> x" by auto
  then show "in_list h x" and "\<not> self_linked h x" by (simp_all add: in_list_def self_linked_def)
qed

lemma splice_range_frame_list:
  assumes d: "dlist h l xs" and p: "pos \<in> set (l # xs)" and f: "first \<in> set (l # xs)"
    and e: "last' \<in> set (l # xs)" and c: "c \<notin> set (l # xs)"
  shows "splice_range h pos first last' c = h c"
proof (rule splice_range_frame)
  show "c \<notin> {pos, first, last', previous (h pos), previous (h first), previous (h last')}"
    using c p f e dlist_neighbours_in(2) [OF d] by auto
qed

lemma step_splice_value:
  assumes wf: "well_formed h L" and a: "L a = Some (ps @ qs)" and b: "L b = Some (us @ x # vs)"
    and ab: "a \<noteq> b"
  shows "well_formed (splice_value h (hd (qs @ [a])) x) (L(a \<mapsto> ps @ x # qs, b \<mapsto> us @ vs))"
proof (rule well_formed_update2 [OF wf a b ab])
  have da: "dlist h a (ps @ qs)" using wf a by (rule well_formed_dlist)
  have db: "dlist h b (us @ x # vs)" using wf b by (rule well_formed_dlist)
  have dj: "set (a # ps @ qs) \<inter> set (b # us @ x # vs) = {}"
    using wf a b ab by (rule well_formed_disjoint)
  note m = dlist_move_before [OF da db dj]
  show "dlist (splice_value h (hd (qs @ [a])) x) a (ps @ x # qs)"
    and "dlist (splice_value h (hd (qs @ [a])) x) b (us @ vs)"
    using m(1,2) by (simp_all add: splice_value_def)
  show "splice_value h (hd (qs @ [a])) x c = h c"
    if "c \<notin> set (a # ps @ qs)" "c \<notin> set (b # us @ x # vs)" for c
    using m(3) [OF that] by (simp add: splice_value_def)
  show "set (ps @ x # qs) \<union> set (us @ vs) = set (ps @ qs) \<union> set (us @ x # vs)" by auto
  show "set (ps @ x # qs) \<inter> set (us @ vs) = {}"
    using dj db by (auto simp: dlist_def)
qed

lemma step_splice_value_same:
  assumes wf: "well_formed h L" and a: "L a = Some (us @ x # vs)" and e: "us @ vs = ps @ qs"
  shows "well_formed (splice_value h (hd (qs @ [a])) x) (L(a \<mapsto> ps @ x # qs))"
proof (rule well_formed_update [OF wf a, where N = "{}"])
  let ?h1 = "node_remove h x"
  have d: "dlist h a (us @ x # vs)" using wf a by (rule well_formed_dlist)
  then have dist: "distinct (a # us @ x # vs)" by (simp add: dlist_def)
  have d1: "dlist ?h1 a (ps @ qs)" using dlist_remove [OF d] e by simp
  have x: "x \<notin> set (a # ps @ qs)" using dist e [symmetric] by auto
  have s: "set (ps @ qs) = set (us @ vs)" using e by simp
  show "dlist (splice_value h (hd (qs @ [a])) x) a (ps @ x # qs)"
    unfolding splice_value_def list_insert_def list_remove_def
    using d1 x by (rule dlist_insert_before)
  show "splice_value h (hd (qs @ [a])) x c = h c" if "c \<notin> set (a # us @ x # vs)" "c \<notin> {}" for c
  proof -
    have "c \<notin> set (a # ps @ qs)" "c \<noteq> x" using that(1) s by auto
    then have "node_insert_before ?h1 (hd (qs @ [a])) x c = ?h1 c"
      using d1 by (intro dlist_insert_before_frame)
    then show ?thesis
      using dlist_remove_frame [OF d that(1)]
      by (simp add: splice_value_def list_insert_def list_remove_def)
  qed
  show "set (ps @ x # qs) \<subseteq> set (us @ x # vs) \<union> {}" using s by auto
  show "self_linked (splice_value h (hd (qs @ [a])) x) n"
    if "n \<in> set (us @ x # vs) \<union> {}" "n \<notin> set (ps @ x # qs)" for n
    using that s by auto
qed simp

lemma step_splice_list:
  assumes wf: "well_formed h L" and a: "L a = Some (ps @ qs)" and b: "L b = Some ys"
    and ab: "a \<noteq> b"
  shows "well_formed (splice_list h (hd (qs @ [a])) b) (L(a \<mapsto> ps @ ys @ qs, b \<mapsto> []))"
proof (rule well_formed_update2 [OF wf a b ab])
  have da: "dlist h a (ps @ qs)" using wf a by (rule well_formed_dlist)
  have db: "dlist h b ys" using wf b by (rule well_formed_dlist)
  have dj: "set (a # ps @ qs) \<inter> set (b # ys) = {}"
    using wf a b ab by (rule well_formed_disjoint)
  note m = splice_list_correct [OF da db dj]
  show "dlist (splice_list h (hd (qs @ [a])) b) a (ps @ ys @ qs)"
    and "dlist (splice_list h (hd (qs @ [a])) b) b []"
    using m by simp_all
  show "splice_list h (hd (qs @ [a])) b c = h c"
    if "c \<notin> set (a # ps @ qs)" "c \<notin> set (b # ys)" for c
    using m that by simp
  show "set (ps @ ys @ qs) \<union> set [] = set (ps @ qs) \<union> set ys" by auto
qed simp

lemma step_splice_range:
  assumes wf: "well_formed h L" and a: "L a = Some (ps @ qs)" and b: "L b = Some (us @ rs @ vs)"
    and ab: "a \<noteq> b" and rs: "rs \<noteq> []"
  shows "well_formed (splice_range h (hd (qs @ [a])) (hd rs) (hd (vs @ [b])))
    (L(a \<mapsto> ps @ rs @ qs, b \<mapsto> us @ vs))"
proof (rule well_formed_update2 [OF wf a b ab])
  have da: "dlist h a (ps @ qs)" using wf a by (rule well_formed_dlist)
  have db: "dlist h b (us @ rs @ vs)" using wf b by (rule well_formed_dlist)
  have dj: "set (a # ps @ qs) \<inter> set (b # us @ rs @ vs) = {}"
    using wf a b ab by (rule well_formed_disjoint)
  note m = dlist_splice [OF da db rs dj]
  show "dlist (splice_range h (hd (qs @ [a])) (hd rs) (hd (vs @ [b]))) a (ps @ rs @ qs)"
    and "dlist (splice_range h (hd (qs @ [a])) (hd rs) (hd (vs @ [b]))) b (us @ vs)"
    by (rule m(1), rule m(2))
  show "splice_range h (hd (qs @ [a])) (hd rs) (hd (vs @ [b])) c = h c"
    if "c \<notin> set (a # ps @ qs)" "c \<notin> set (b # us @ rs @ vs)" for c
    using that by (rule m(3))
  show "set (ps @ rs @ qs) \<union> set (us @ vs) = set (ps @ qs) \<union> set (us @ rs @ vs)" by auto
  show "set (ps @ rs @ qs) \<inter> set (us @ vs) = {}" using dj db by (auto simp: dlist_def)
qed

lemma step_splice_backward:
  assumes wf: "well_formed h L" and l: "L l = Some (as @ qs @ rs @ bs)"
    and nq: "qs \<noteq> []" and nr: "rs \<noteq> []"
  shows "well_formed (splice_range h (hd qs) (hd rs) (hd (bs @ [l]))) (L(l \<mapsto> as @ rs @ qs @ bs))"
proof (rule well_formed_update [OF wf l, where N = "{}"])
  have d: "dlist h l (as @ qs @ rs @ bs)" using wf l by (rule well_formed_dlist)
  show "dlist (splice_range h (hd qs) (hd rs) (hd (bs @ [l]))) l (as @ rs @ qs @ bs)"
    using d nq nr by (rule splice_same_list_before)
  show "splice_range h (hd qs) (hd rs) (hd (bs @ [l])) c = h c"
    if "c \<notin> set (l # as @ qs @ rs @ bs)" "c \<notin> {}" for c
  proof (rule splice_range_frame_list [OF d _ _ _ that(1)])
    show "hd qs \<in> set (l # as @ qs @ rs @ bs)" "hd rs \<in> set (l # as @ qs @ rs @ bs)"
      using nq nr by simp_all
    show "hd (bs @ [l]) \<in> set (l # as @ qs @ rs @ bs)" using hd_snoc_in [of bs l] by auto
  qed
qed auto

lemma step_splice_forward:
  assumes wf: "well_formed h L" and l: "L l = Some (as @ rs @ qs @ bs)"
    and nq: "qs \<noteq> []" and nr: "rs \<noteq> []"
  shows "well_formed (splice_range h (hd (bs @ [l])) (hd rs) (hd qs)) (L(l \<mapsto> as @ qs @ rs @ bs))"
proof (rule well_formed_update [OF wf l, where N = "{}"])
  have d: "dlist h l (as @ rs @ qs @ bs)" using wf l by (rule well_formed_dlist)
  show "dlist (splice_range h (hd (bs @ [l])) (hd rs) (hd qs)) l (as @ qs @ rs @ bs)"
    using d nq nr by (rule splice_same_list_after)
  show "splice_range h (hd (bs @ [l])) (hd rs) (hd qs) c = h c"
    if "c \<notin> set (l # as @ rs @ qs @ bs)" "c \<notin> {}" for c
  proof (rule splice_range_frame_list [OF d _ _ _ that(1)])
    show "hd qs \<in> set (l # as @ rs @ qs @ bs)" "hd rs \<in> set (l # as @ rs @ qs @ bs)"
      using nq nr by simp_all
    show "hd (bs @ [l]) \<in> set (l # as @ rs @ qs @ bs)" using hd_snoc_in [of bs l] by auto
  qed
qed auto

lemma step_merge:
  assumes wf: "well_formed h L" and a: "L a = Some xs" and b: "L b = Some ys" and ab: "a \<noteq> b"
    and m: "merge c h a b = Some h'"
  shows "well_formed h' (L(a \<mapsto> merge_lists c xs ys, b \<mapsto> []))"
proof (rule well_formed_update2 [OF wf a b ab])
  have da: "dlist h a xs" using wf a by (rule well_formed_dlist)
  have db: "dlist h b ys" using wf b by (rule well_formed_dlist)
  have dj: "set (a # xs) \<inter> set (b # ys) = {}" using wf a b ab by (rule well_formed_disjoint)
  from merge_correct [OF da db dj, of c] m
  have r: "dlist h' a (merge_lists c xs ys)" "dlist h' b []"
    "\<forall>c. c \<notin> set (a # xs) \<longrightarrow> c \<notin> set (b # ys) \<longrightarrow> h' c = h c"
    by auto
  show "dlist h' a (merge_lists c xs ys)" and "dlist h' b []" by (rule r(1), rule r(2))
  show "h' c = h c" if "c \<notin> set (a # xs)" "c \<notin> set (b # ys)" for c using r(3) that by blast
  show "set (merge_lists c xs ys) \<union> set [] = set xs \<union> set ys"
    by (simp add: set_merge_lists)
qed simp

lemma step_unique:
  assumes wf: "well_formed h L" and l: "L l = Some xs" and u: "unique p h l = Some h'"
  shows "well_formed h' (L(l \<mapsto> unique_list p xs))"
proof (rule well_formed_update [OF wf l, where N = "{}"])
  have d: "dlist h l xs" using wf l by (rule well_formed_dlist)
  from unique_correct [OF d, of p] u
  have r: "dlist h' l (unique_list p xs)" "\<forall>c. c \<notin> set (l # xs) \<longrightarrow> h' c = h c"
    "\<forall>c \<in> set xs. c \<notin> set (unique_list p xs) \<longrightarrow> self_linked h' c"
    by auto
  show "dlist h' l (unique_list p xs)" by (rule r(1))
  show "h' c = h c" if "c \<notin> set (l # xs)" "c \<notin> {}" for c using r(2) that by blast
  show "set (unique_list p xs) \<subseteq> set xs \<union> {}" using set_unique_list [of p xs] by simp
  show "self_linked h' n" if "n \<in> set xs \<union> {}" "n \<notin> set (unique_list p xs)" for n
    using r(3) that by simp
qed simp

lemma step_sort:
  assumes wf: "well_formed h L" and l: "L l = Some xs" and s: "list_sort c h l = Some h'"
  shows "well_formed h' (L(l \<mapsto> insertion_sort c xs))"
proof (rule well_formed_update [OF wf l, where N = "{}"])
  have d: "dlist h l xs" using wf l by (rule well_formed_dlist)
  from list_sort_correct [OF d, of c] s
  have r: "dlist h' l (insertion_sort c xs)" "\<forall>a. a \<notin> set (l # xs) \<longrightarrow> h' a = h a"
    by auto
  have e: "set (insertion_sort c xs) = set xs"
    using mset_insertion_sort_from [of c "[]" xs] by (metis insertion_sort_def mset_eq_setD
        add.left_neutral mset.simps(1))
  show "dlist h' l (insertion_sort c xs)" by (rule r(1))
  show "h' a = h a" if "a \<notin> set (l # xs)" "a \<notin> {}" for a using r(2) that by blast
  show "set (insertion_sort c xs) \<subseteq> set xs \<union> {}" using e by simp
  show "self_linked h' n" if "n \<in> set xs \<union> {}" "n \<notin> set (insertion_sort c xs)" for n
    using that e by simp
qed simp

lemma step_swap:
  assumes wf: "well_formed h L" and a: "L a = Some xs" and b: "L b = Some ys" and ab: "a \<noteq> b"
    and e: "xs = [] \<longleftrightarrow> ys = []"
  shows "well_formed (swap h a b) (L(a \<mapsto> ys, b \<mapsto> xs))"
proof (rule well_formed_update2 [OF wf a b ab])
  have da: "dlist h a xs" using wf a by (rule well_formed_dlist)
  have db: "dlist h b ys" using wf b by (rule well_formed_dlist)
  have dj: "set (a # xs) \<inter> set (b # ys) = {}" using wf a b ab by (rule well_formed_disjoint)
  note r = swap_correct [OF da db dj e]
  show "dlist (swap h a b) a ys" and "dlist (swap h a b) b xs" using r by simp_all
  show "swap h a b c = h c" if "c \<notin> set (a # xs)" "c \<notin> set (b # ys)" for c
    using r that by blast
  show "set ys \<union> set xs = set xs \<union> set ys" by auto
  show "set ys \<inter> set xs = {}" using dj by auto
qed

lemma step_move_assign:
  assumes wf: "well_formed h L" and a: "L a = Some []" and b: "L b = Some ys" and ab: "a \<noteq> b"
  shows "well_formed (list_move_assign h a b) (L(a \<mapsto> ys, b \<mapsto> []))"
proof (rule well_formed_update2 [OF wf a b ab])
  have da: "dlist h a []" using wf a by (rule well_formed_dlist)
  have db: "dlist h b ys" using wf b by (rule well_formed_dlist)
  have dj: "set (a # []) \<inter> set (b # ys) = {}" using wf a b ab by (rule well_formed_disjoint)
  note r = list_move_assign_correct [OF da db dj]
  show "dlist (list_move_assign h a b) a ys" and "dlist (list_move_assign h a b) b []"
    by (rule r(1), rule r(2))
  show "list_move_assign h a b c = h c" if "c \<notin> set [a]" "c \<notin> set (b # ys)" for c
    using r(3) that by simp
qed simp_all

lemma step_move_construct:
  assumes wf: "well_formed h L" and a: "in_no_list L a" and b: "L b = Some ys"
  shows "well_formed (list_move_construct h a b) (L(a \<mapsto> ys, b \<mapsto> []))"
proof -
  have ab: "a \<noteq> b" using in_no_list_notin [OF a b] by auto
  have s: "self_linked h a" using wf a by (rule well_formed_self_linked)
  then have "node_construct h a = h"
    by (auto simp: node_construct_def self_linked_def intro!: heap_eqI)
  then have e: "list_move_construct h a b = list_move_assign h a b"
    by (simp add: list_move_construct_def)
  have wf0: "well_formed h (L(a \<mapsto> []))" using wf a by (rule well_formed_new)
  have "well_formed (list_move_assign h a b) ((L(a \<mapsto> []))(a \<mapsto> ys, b \<mapsto> []))"
    using ab b by (intro step_move_assign [OF wf0]) simp_all
  then show ?thesis by (simp add: e)
qed

lemma well_formed_initial: "well_formed fresh Map.empty"
  by (simp add: well_formed_def in_no_list_def self_linked_def fresh_def)

lemma reach_well_formed: "reach h L \<Longrightarrow> well_formed h L"
proof (induction rule: reach.induct)
  case initial
  show ?case by (rule well_formed_initial)
next
  case (construct_node h L n)
  then show ?case by (blast intro: step_unlisted(1))
next
  case (construct_list h L l)
  then show ?case by (blast intro: step_unlisted(3))
next
  case (push_back h L l xs v h')
  then show ?case by (blast intro: step_push_back)
next
  case (push_front h L l xs v h')
  then show ?case by (blast intro: step_push_front)
next
  case (pop_front h L l x xs)
  then show ?case by (blast intro: step_pop_front)
next
  case (pop_back h L l xs x)
  then show ?case by (blast intro: step_pop_back)
next
  case (pop_empty_front h L l)
  then show ?case by (blast intro: step_pop_empty(1))
next
  case (pop_empty_back h L l)
  then show ?case by (blast intro: step_pop_empty(2))
next
  case (insert h L l ps qs v)
  then show ?case unfolding list_insert_def by (blast intro: step_insert)
next
  case (insert_after h L l ps qs v)
  then show ?case by (blast intro: step_insert_after)
next
  case (erase h L l us x vs)
  then show ?case unfolding erase_def Let_def fst_conv by (blast intro: step_remove)
next
  case (remove h L l us x vs)
  then show ?case unfolding list_remove_def by (blast intro: step_remove)
next
  case (remove_unlisted h L x)
  then show ?case by (blast intro: step_unlisted(2))
next
  case (splice_value h L a ps qs b us x vs)
  then show ?case by (blast intro: step_splice_value)
next
  case (splice_value_same h L a us x vs ps qs)
  then show ?case by (blast intro: step_splice_value_same)
next
  case (splice_list h L a ps qs b ys)
  then show ?case by (blast intro: step_splice_list)
next
  case (splice_empty h L pos x)
  then show ?case by (simp add: splice_range_def)
next
  case (splice_range h L a ps qs b us rs vs)
  then show ?case by (blast intro: step_splice_range)
next
  case (splice_backward h L l as qs rs bs)
  then show ?case by (blast intro: step_splice_backward)
next
  case (splice_forward h L l as rs qs bs)
  then show ?case by (blast intro: step_splice_forward)
next
  case (merge h L a xs b ys c h')
  then show ?case by (blast intro: step_merge)
next
  case (unique h L l xs p h')
  then show ?case by (blast intro: step_unique)
next
  case (sort h L l xs c h')
  then show ?case by (blast intro: step_sort)
next
  case (swap h L a xs b ys)
  then show ?case by (blast intro: step_swap)
next
  case (move_assign h L a b ys)
  then show ?case by (blast intro: step_move_assign)
next
  case (move_construct h L a b ys)
  then show ?case by (blast intro: step_move_construct)
qed

lemma well_formed_linked:
  assumes wf: "well_formed h L"
  shows "linked h"
  unfolding linked_def
proof
  fix f
  show "linked_at h f"
  proof (cases "in_no_list L f")
    case True
    then have "self_linked h f" using wf by (simp add: well_formed_self_linked)
    then show ?thesis by (simp add: linked_at_def self_linked_def)
  next
    case False
    then obtain l xs where l: "L l = Some xs" "f \<in> set (l # xs)"
      unfolding in_no_list_def by blast
    have "dlist h l xs" using wf l(1) by (rule well_formed_dlist)
    then show ?thesis using l(2) by (rule dlist_neighbours_in(3))
  qed
qed

text \<open>
  Along every sequence of well-formed calls that avoids the three kinds of call named
  above, every link field is consistent with its neighbours, every container is a
  circle through its header, a link field in no list is self-linked, and an element of a
  container is not.
\<close>

lemma reach_consistent:
  assumes "reach h L"
  shows "linked h"
    and "L l = Some xs \<Longrightarrow> dlist h l xs"
    and "in_no_list L n \<Longrightarrow> self_linked h n \<and> \<not> in_list h n"
    and "L l = Some xs \<Longrightarrow> n \<in> set xs \<Longrightarrow> in_list h n \<and> \<not> self_linked h n"
proof -
  have wf: "well_formed h L" using assms by (rule reach_well_formed)
  show "linked h" using wf by (rule well_formed_linked)
  show d: "dlist h l xs" if "L l = Some xs" using wf that by (rule well_formed_dlist)
  show "self_linked h n \<and> \<not> in_list h n" if "in_no_list L n"
    using well_formed_self_linked [OF wf that] by (simp add: self_linked_def in_list_def)
  show "in_list h n \<and> \<not> self_linked h n" if "L l = Some xs" "n \<in> set xs"
    using dlist_member_in_list [OF d [OF that(1)] that(2)] by simp
qed

text \<open>The store \<open>one_empty\<close>, on which \<open>swap\<close> goes wrong, is such a state.\<close>

lemma reach_one_empty: "reach one_empty [0 \<mapsto> [], 10 \<mapsto> [11, 12]]"
proof -
  define h2 where "h2 = list_construct (list_construct fresh 0) 10"
  define h3 where "h3 = node_insert_before h2 10 11"
  define h4 where "h4 = node_insert_before h3 10 12"
  have p3: "push_back h2 10 11 = Some h3"
    by (simp add: push_back_def in_list_def h2_def h3_def list_construct_def fresh_def)
  have p4: "push_back h3 10 12 = Some h4"
    by (simp add: push_back_def in_list_def h2_def h3_def h4_def node_insert_before_def Let_def
        list_construct_def fresh_def)
  have e: "one_empty = h4"
    using p3 p4 by (simp add: one_empty_def h2_def [symmetric])
  have r1: "reach (list_construct fresh 0) [0 \<mapsto> []]"
    by (rule reach.construct_list [OF reach.initial]) (simp add: in_no_list_def)
  have "reach (list_construct (list_construct fresh 0) 10) ([0 \<mapsto> []](10 \<mapsto> []))"
    by (rule reach.construct_list [OF r1]) (simp add: in_no_list_def)
  then have r2: "reach h2 [0 \<mapsto> [], 10 \<mapsto> []]" by (simp add: h2_def)
  have "reach h3 ([0 \<mapsto> [], 10 \<mapsto> []](10 \<mapsto> [] @ [11]))"
    by (rule reach.push_back [OF r2 _ _ p3]) (simp_all add: in_no_list_def)
  then have r3: "reach h3 [0 \<mapsto> [], 10 \<mapsto> [11]]" by simp
  have "reach h4 ([0 \<mapsto> [], 10 \<mapsto> [11]](10 \<mapsto> [11] @ [12]))"
    by (rule reach.push_back [OF r3 _ _ p4]) (simp_all add: in_no_list_def)
  then show ?thesis by (simp add: e)
qed

end
